theory Spec2Isabelle
  imports Main "HOL-Library.Word" "HOL-Library.Multiset"
begin

unbundle bit_operations_syntax

section \<open>Memory and little-endian accessors (Bitstream.h)\<close>

text \<open>
  The output buffer and the intermediate buffer are byte arrays reached through raw
  pointers.  A pointer into such a buffer is modelled by its byte offset, the buffer by a
  total store from offsets to bytes: C performs no bounds check on these accesses.  The
  input is read through pointers that may be moved before its first byte (\<open>end - 2\<close>,
  \<open>data - MAX_OFFSET\<close>), so input pointers are integer offsets relative to the first input
  byte and the input is a store over the integers.

  The little-endian byte-wise variants of the accessor macros are modelled; the unaligned
  variants denote the same bytes.
\<close>

type_synonym memory = "nat \<Rightarrow> 8 word"
type_synonym input = "int \<Rightarrow> 8 word"

definition SET_UINT16_RAW :: "memory \<Rightarrow> nat \<Rightarrow> 16 word \<Rightarrow> memory" where
  "SET_UINT16_RAW m x val = m(x := ucast val, x + 1 := ucast (drop_bit 8 val))"

definition SET_UINT32_RAW :: "memory \<Rightarrow> nat \<Rightarrow> 32 word \<Rightarrow> memory" where
  "SET_UINT32_RAW m x val =
     m(x := ucast val, x + 1 := ucast (drop_bit 8 val),
       x + 2 := ucast (drop_bit 16 val), x + 3 := ucast (drop_bit 24 val))"

definition GET_UINT16_RAW :: "memory \<Rightarrow> nat \<Rightarrow> 16 word" where
  "GET_UINT16_RAW m x = ucast (m x) OR push_bit 8 (ucast (m (x + 1)))"

definition GET_UINT32_RAW :: "memory \<Rightarrow> nat \<Rightarrow> 32 word" where
  "GET_UINT32_RAW m x =
     ucast (m x) OR push_bit 8 (ucast (m (x + 1))) OR
     push_bit 16 (ucast (m (x + 2))) OR push_bit 24 (ucast (m (x + 3)))"

text \<open>\<open>memcpy(out, in, n)\<close> from the input into a buffer.\<close>

definition memcpy_in :: "memory \<Rightarrow> nat \<Rightarrow> input \<Rightarrow> int \<Rightarrow> nat \<Rightarrow> memory" where
  "memcpy_in m dst inp src n =
     (\<lambda>a. if dst \<le> a \<and> a < dst + n then inp (src + int (a - dst)) else m a)"

section \<open>The bitstream writer (Bitstream.h)\<close>

text \<open>
  \<open>out\<close> is the output cursor, \<open>pntr0\<close> and \<open>pntr1\<close> are \<open>pntr[0]\<close> and \<open>pntr[1]\<close>, the
  pending and next-pending 16-bit slots, \<open>mask_bs\<close> is the field \<open>mask\<close> (the accumulator)
  and \<open>bits\<close> the number of valid accumulator bits (\<open>uint_fast8_t\<close>, eight bits wide).
\<close>

record OutputBitstream =
  out :: nat
  pntr0 :: nat
  pntr1 :: nat
  mask_bs :: "32 word"
  bits :: "8 word"

definition OutputBitstream_init :: "nat \<Rightarrow> OutputBitstream" where
  "OutputBitstream_init p =
     \<lparr>out = p + 4, pntr0 = p, pntr1 = p + 2, mask_bs = 0, bits = 0\<rparr>"

text \<open>
  \<open>ctx->mask |= b << (32 - (ctx->bits += n))\<close>.  The shift count is \<open>32 - bits\<close> computed
  on \<open>int\<close>; it lies in \<open>0..31\<close> whenever the new bit count lies in \<open>1..32\<close>.  For a new
  bit count of 0 the count is 32, which C leaves undefined; the model then contributes no
  bit (\<open>push_bit 32\<close> on a 32-bit word is 0).
\<close>

definition WriteBits ::
  "OutputBitstream \<Rightarrow> memory \<Rightarrow> 32 word \<Rightarrow> 8 word \<Rightarrow> OutputBitstream \<times> memory" where
  "WriteBits ctx m b n =
     (let bits1 = bits ctx + n;
          mask1 = mask_bs ctx OR push_bit (32 - unat bits1) b
      in if 16 < bits1
         then (ctx\<lparr>out := out ctx + 2, pntr0 := pntr1 ctx, pntr1 := out ctx,
                   mask_bs := push_bit 16 mask1, bits := bits1 AND 0xF\<rparr>,
               SET_UINT16_RAW m (pntr0 ctx) (ucast (drop_bit 16 mask1)))
         else (ctx\<lparr>mask_bs := mask1, bits := bits1\<rparr>, m))"

definition WriteRawByte ::
  "OutputBitstream \<Rightarrow> memory \<Rightarrow> 8 word \<Rightarrow> OutputBitstream \<times> memory" where
  "WriteRawByte ctx m x = (ctx\<lparr>out := out ctx + 1\<rparr>, m(out ctx := x))"

definition WriteRawUInt16 ::
  "OutputBitstream \<Rightarrow> memory \<Rightarrow> 16 word \<Rightarrow> OutputBitstream \<times> memory" where
  "WriteRawUInt16 ctx m x = (ctx\<lparr>out := out ctx + 2\<rparr>, SET_UINT16_RAW m (out ctx) x)"

definition WriteRawUInt32 ::
  "OutputBitstream \<Rightarrow> memory \<Rightarrow> 32 word \<Rightarrow> OutputBitstream \<times> memory" where
  "WriteRawUInt32 ctx m x = (ctx\<lparr>out := out ctx + 4\<rparr>, SET_UINT32_RAW m (out ctx) x)"

definition Finish :: "OutputBitstream \<Rightarrow> memory \<Rightarrow> memory" where
  "Finish ctx m =
     SET_UINT16_RAW (SET_UINT16_RAW m (pntr0 ctx) (ucast (drop_bit 16 (mask_bs ctx))))
       (pntr1 ctx) 0"

section \<open>The dictionary (XpressDictionary.h)\<close>

definition MAX_OFFSET :: int where "MAX_OFFSET = 0xFFFF"
definition CHUNK_SIZE :: nat where "CHUNK_SIZE = 0x10000"
definition HASH_BITS :: nat where "HASH_BITS = 15"
definition MAX_CHAIN :: nat where "MAX_CHAIN = 11"
definition NICE_LENGTH :: "32 word" where "NICE_LENGTH = 48"

text \<open>
  A \<open>const uint8_t*\<close> stored in the dictionary is either the null pointer (the hash table
  is cleared with \<open>memset\<close>) or a position of the input.
\<close>

datatype pntr = NULL | Ptr int

record XpressDictionary =
  WindowSize :: "32 word"
  WindowMask :: "32 word"
  HashSize :: "32 word"
  HashMask :: "32 word"
  HashShift :: nat
  start :: int
  end_d :: int
  end2 :: int
  table :: "nat \<Rightarrow> pntr"
  window :: "nat \<Rightarrow> pntr"

text \<open>
  \<open>XpressDictionary_init\<close>.  The window comes from \<open>malloc\<close> and is not cleared: its
  initial contents \<open>w0\<close> are a parameter of the model.  \<open>end_d\<close> is the field \<open>end\<close>.
\<close>

definition XpressDictionary_init :: "(nat \<Rightarrow> pntr) \<Rightarrow> int \<Rightarrow> int \<Rightarrow> XpressDictionary" where
  "XpressDictionary_init w0 s e =
     (let ws = push_bit 1 (word_of_nat CHUNK_SIZE :: 32 word);
          hs = push_bit HASH_BITS (1 :: 32 word)
      in \<lparr>WindowSize = ws, WindowMask = ws - 1, HashSize = hs, HashMask = hs - 1,
          HashShift = (HASH_BITS + 2) div 3,
          start = s, end_d = e, end2 = e - 2,
          table = (\<lambda>_. NULL), window = w0\<rparr>)"

definition WindowPos :: "XpressDictionary \<Rightarrow> int \<Rightarrow> nat" where
  "WindowPos ctx x = nat ((x - start ctx) AND uint (WindowMask ctx))"

text \<open>\<open>uint_fast16_t\<close> is 64 bits wide on the LP64 targets of the library.\<close>

definition HashUpdate :: "XpressDictionary \<Rightarrow> 64 word \<Rightarrow> 8 word \<Rightarrow> 64 word" where
  "HashUpdate ctx h c = (push_bit (HashShift ctx) h XOR ucast c) AND ucast (HashMask ctx)"

text \<open>
  \<open>GetMatchLength\<close>, the variant without unaligned access: a \<open>do ... while\<close> loop, so the
  first pair of bytes is always read.
\<close>

function GetMatchLength_loop :: "input \<Rightarrow> int \<Rightarrow> int \<Rightarrow> int \<Rightarrow> int" where
  "GetMatchLength_loop inp a b e =
     (if b + 1 < e \<and> inp a = inp b then GetMatchLength_loop inp (a + 1) (b + 1) e
      else b + 1)"
  by pat_completeness auto
termination
  by (relation "measure (\<lambda>(inp, a, b, e). nat (e - b))") auto

declare GetMatchLength_loop.simps [simp del]

definition GetMatchLength :: "input \<Rightarrow> int \<Rightarrow> int \<Rightarrow> int \<Rightarrow> 32 word" where
  "GetMatchLength inp a b e = word_of_int (GetMatchLength_loop inp a b e - b - 1)"

function Fill_loop ::
  "XpressDictionary \<Rightarrow> input \<Rightarrow> int \<Rightarrow> int \<Rightarrow> nat \<Rightarrow> 64 word \<Rightarrow> XpressDictionary" where
  "Fill_loop ctx inp data endx pos hash =
     (if data < endx
      then (let hash1 = HashUpdate ctx hash (inp (data + 2))
            in Fill_loop
                 (ctx\<lparr>window := (window ctx)(pos := table ctx (unat hash1)),
                      table := (table ctx)(unat hash1 := Ptr data)\<rparr>)
                 inp (data + 1) endx (pos + 1) hash1)
      else ctx)"
  by pat_completeness auto
termination
  by (relation "measure (\<lambda>(ctx, inp, data, endx, pos, hash). nat (endx - data))") auto

declare Fill_loop.simps [simp del]

definition Fill :: "XpressDictionary \<Rightarrow> input \<Rightarrow> int \<Rightarrow> XpressDictionary" where
  "Fill ctx inp data =
     (if end2 ctx \<le> data then ctx
      else (let pos = WindowPos ctx data;
                endx = (if data + int CHUNK_SIZE < end2 ctx then data + int CHUNK_SIZE
                        else end2 ctx);
                hash = HashUpdate ctx (ucast (inp data)) (inp (data + 1))
            in Fill_loop ctx inp data endx pos hash))"

text \<open>
  \<open>Find\<close>.  \<open>PNTR_BITS\<close> is defined nowhere in the repository, so the preprocessor
  condition \<open>PNTR_BITS <= 32\<close> holds and \<open>endx\<close> is \<open>ctx->end\<close>.  The loop counter
  \<open>chain_length\<close> is the recursion argument.  The test \<open>x >= xend\<close> fails for the null
  pointer: the input buffer lies above address \<open>MAX_OFFSET\<close>.  \<open>*offset\<close> is passed in and
  returned, since the function writes it only when it finds a longer match.
\<close>

fun Find_loop ::
  "XpressDictionary \<Rightarrow> input \<Rightarrow> int \<Rightarrow> nat \<Rightarrow> pntr \<Rightarrow> 32 word \<Rightarrow> 32 word
     \<Rightarrow> 32 word \<times> 32 word" where
  "Find_loop ctx inp data 0 x len off = (len, off)"
| "Find_loop ctx inp data (Suc chain_length) NULL len off = (len, off)"
| "Find_loop ctx inp data (Suc chain_length) (Ptr x) len off =
     (if data - MAX_OFFSET \<le> x
      then (if inp x = inp data \<and> inp (x + 1) = inp (data + 1)
            then (let l = GetMatchLength inp x data (end_d ctx)
                  in if len < l
                     then (if NICE_LENGTH \<le> l then (l, word_of_int (data - x))
                           else Find_loop ctx inp data chain_length
                                  (window ctx (WindowPos ctx x)) l (word_of_int (data - x)))
                     else Find_loop ctx inp data chain_length
                            (window ctx (WindowPos ctx x)) len off)
            else Find_loop ctx inp data chain_length (window ctx (WindowPos ctx x)) len off)
      else (len, off))"

definition Find :: "XpressDictionary \<Rightarrow> input \<Rightarrow> int \<Rightarrow> 32 word \<Rightarrow> 32 word \<times> 32 word" where
  "Find ctx inp data off = Find_loop ctx inp data MAX_CHAIN (window ctx (WindowPos ctx data)) 2 off"

text \<open>
  For the statement of what \<open>Find\<close> does: \<open>Find_visited\<close> is the same loop as
  \<open>Find_loop\<close>, but returns the chain entries \<open>x\<close> on which the loop body runs, in the
  order of the walk; \<open>cand_len\<close> is the match length the loop body computes for an entry
  (0 when the two-byte prefix test fails, so that the entry never replaces the best match).
\<close>

definition cand_len :: "XpressDictionary \<Rightarrow> input \<Rightarrow> int \<Rightarrow> int \<Rightarrow> 32 word" where
  "cand_len ctx inp data x =
     (if inp x = inp data \<and> inp (x + 1) = inp (data + 1)
      then GetMatchLength inp x data (end_d ctx) else 0)"

fun Find_visited ::
  "XpressDictionary \<Rightarrow> input \<Rightarrow> int \<Rightarrow> nat \<Rightarrow> pntr \<Rightarrow> 32 word \<Rightarrow> int list" where
  "Find_visited ctx inp data 0 x len = []"
| "Find_visited ctx inp data (Suc chain_length) NULL len = []"
| "Find_visited ctx inp data (Suc chain_length) (Ptr x) len =
     (if data - MAX_OFFSET \<le> x
      then x # (if len < cand_len ctx inp data x
                then (if NICE_LENGTH \<le> cand_len ctx inp data x then []
                      else Find_visited ctx inp data chain_length
                             (window ctx (WindowPos ctx x)) (cand_len ctx inp data x))
                else Find_visited ctx inp data chain_length
                       (window ctx (WindowPos ctx x)) len)
      else [])"

text \<open>
  Scanning a list of candidates for the first one of maximal match length: the best match
  is replaced only by a strictly longer one.
\<close>

fun scan_best ::
  "(int \<Rightarrow> 32 word) \<Rightarrow> int \<Rightarrow> 32 word \<times> 32 word \<Rightarrow> int list \<Rightarrow> 32 word \<times> 32 word" where
  "scan_best cl data best [] = best"
| "scan_best cl data best (v # vs) =
     (if fst best < cl v then scan_best cl data (cl v, word_of_int (data - v)) vs
      else scan_best cl data best vs)"

section \<open>The literals-only encoder (\<open>xh_compress_no_matching\<close>)\<close>

definition SYMBOLS :: nat where "SYMBOLS = 0x200"
definition HALF_SYMBOLS :: nat where "HALF_SYMBOLS = 0x100"
definition STREAM_END :: nat where "STREAM_END = 0x100"

text \<open>\<open>for (i = 0; i < n; ++i) { ++symbol_counts[*in++]; }\<close>\<close>

fun count_literals :: "32 word list \<Rightarrow> input \<Rightarrow> int \<Rightarrow> nat \<Rightarrow> 32 word list" where
  "count_literals sc inp p 0 = sc"
| "count_literals sc inp p (Suc n) =
     count_literals (sc[unat (inp p) := sc ! unat (inp p) + 1]) inp (p + 1) n"

text \<open>The loop over the groups of 32 bytes that are followed by at least one more byte.\<close>

function no_matching_loop ::
  "input \<Rightarrow> int \<Rightarrow> int \<Rightarrow> nat \<Rightarrow> memory \<Rightarrow> 32 word list
     \<Rightarrow> int \<times> nat \<times> memory \<times> 32 word list" where
  "no_matching_loop inp in_p in_endx outp m sc =
     (if in_p < in_endx
      then no_matching_loop inp (in_p + 32) in_endx (outp + 36)
             (memcpy_in (SET_UINT32_RAW m outp 0) (outp + 4) inp in_p 32)
             (count_literals sc inp in_p 32)
      else (in_p, outp, m, sc))"
  by pat_completeness auto
termination
  by (relation "measure (\<lambda>(inp, in_p, in_endx, outp, m, sc). nat (in_endx - in_p))") auto

declare no_matching_loop.simps [simp del]

text \<open>
  The result is the returned byte count, the intermediate buffer and the histogram.
\<close>

definition xh_compress_no_matching ::
  "input \<Rightarrow> int \<Rightarrow> nat \<Rightarrow> int \<Rightarrow> nat \<Rightarrow> memory \<Rightarrow> nat \<times> memory \<times> 32 word list" where
  "xh_compress_no_matching inp in_p in_len is_end out_orig m =
     (let in_end = in_p + int in_len;
          in_endx = in_end - 32;
          (in1, out1, m1, sc1) =
             no_matching_loop inp in_p in_endx out_orig m (replicate SYMBOLS 0);
          rem = nat (in_end - in1);
          m2 = SET_UINT32_RAW m1 out1 0;
          out2 = out1 + 4;
          m3 = memcpy_in m2 out2 inp in1 rem;
          out3 = out2 + rem;
          sc2 = count_literals sc1 inp in1 rem
      in if is_end \<noteq> 0
         then (let (m4, out4) =
                     (if rem = 32 then (SET_UINT32_RAW m3 out3 1, out3 + 4)
                      else (SET_UINT32_RAW m3 (out3 - rem - 4) (push_bit rem 1), out3));
                   m5 = SET_UINT32_RAW m4 out4 0;
                   out5 = out4 + 3;
                   sc3 = sc2[STREAM_END := sc2 ! STREAM_END + 1]
               in (out5 - out_orig, m5, sc3))
         else (out3 - out_orig, m3, sc2))"

text \<open>The bytes \<open>in[0 .. n)\<close> of the input slice starting at \<open>p\<close>.\<close>

definition in_bytes :: "input \<Rightarrow> int \<Rightarrow> nat \<Rightarrow> 8 word list" where
  "in_bytes inp p n = map (\<lambda>i. inp (p + int i)) [0..<n]"

section \<open>Stable sorting of symbols (sorting.h)\<close>

text \<open>
  \<open>insertion_sort_uint8_t\<close>, \<open>insertion_sort_uint32_t\<close>, \<open>merge_sort_uint8_t\<close> and
  \<open>merge_sort_uint32_t\<close> are instances of two macros that differ in the type of the
  \<open>conditions\<close> array only; the model is polymorphic in that type.  An array of symbols
  (\<open>uint16_t\<close> values that are indices below \<open>SYMBOLS\<close>) is a list of naturals; \<open>syms + m\<close>
  is the list without its first \<open>m\<close> elements.
\<close>

definition SORT_SWITCH_TO_INSERT_LIMIT :: nat where "SORT_SWITCH_TO_INSERT_LIMIT = 90"

text \<open>\<open>while (j > 0 && conditions[syms[j-1]] > cond) { syms[j] = syms[j-1]; --j; }\<close>\<close>

fun insertion_shift :: "nat list \<Rightarrow> 'a::linorder list \<Rightarrow> 'a \<Rightarrow> nat \<Rightarrow> nat list \<times> nat" where
  "insertion_shift syms conditions cond 0 = (syms, 0)"
| "insertion_shift syms conditions cond (Suc j) =
     (if cond < conditions ! (syms ! j)
      then insertion_shift (syms[Suc j := syms ! j]) conditions cond j
      else (syms, Suc j))"

function insertion_sort_loop :: "nat list \<Rightarrow> 'a::linorder list \<Rightarrow> nat \<Rightarrow> nat \<Rightarrow> nat list" where
  "insertion_sort_loop syms conditions len i =
     (if i < len
      then (let x = syms ! i;
                cond = conditions ! x;
                (syms1, j) = insertion_shift syms conditions cond i
            in insertion_sort_loop (syms1[j := x]) conditions len (i + 1))
      else syms)"
  by pat_completeness auto
termination
  by (relation "measure (\<lambda>(syms, conditions, len, i). len - i)") auto

declare insertion_sort_loop.simps [simp del]

definition insertion_sort :: "nat list \<Rightarrow> 'a::linorder list \<Rightarrow> nat \<Rightarrow> nat list" where
  "insertion_sort syms conditions len = insertion_sort_loop syms conditions len 1"

text \<open>
  \<open>while (j < m && k < len) syms[i++] = (conditions[temp[k]] < conditions[temp[j]]) ?
  temp[k++] : temp[j++];\<close>
\<close>

function merge_loop ::
  "nat list \<Rightarrow> nat list \<Rightarrow> 'a::linorder list \<Rightarrow> nat \<Rightarrow> nat \<Rightarrow> nat \<Rightarrow> nat \<Rightarrow> nat
     \<Rightarrow> nat list \<times> nat \<times> nat \<times> nat" where
  "merge_loop syms temp conditions m len i j k =
     (if j < m \<and> k < len
      then (if conditions ! (temp ! k) < conditions ! (temp ! j)
            then merge_loop (syms[i := temp ! k]) temp conditions m len (i + 1) j (k + 1)
            else merge_loop (syms[i := temp ! j]) temp conditions m len (i + 1) (j + 1) k)
      else (syms, i, j, k))"
  by pat_completeness auto
termination
  by (relation "measure (\<lambda>(syms, temp, conditions, m, len, i, j, k). (m - j) + (len - k))") auto

declare merge_loop.simps [simp del]

text \<open>\<open>memcpy(dst + i, src + j, n * sizeof(uint16_t))\<close> on symbol arrays.\<close>

definition memcpy_syms :: "nat list \<Rightarrow> nat \<Rightarrow> nat list \<Rightarrow> nat \<Rightarrow> nat \<Rightarrow> nat list" where
  "memcpy_syms dst i src j n = take i dst @ take n (drop j src) @ drop (i + n) dst"

text \<open>
  \<open>merge_sort\<close> sorts \<open>syms[0 .. len)\<close>.  The scratch array \<open>temp\<close> is written by
  \<open>memcpy(temp, syms, len)\<close> before the merge reads it, and nothing reads it afterwards, so
  it is a local value of the model.
\<close>

function merge_sort :: "nat list \<Rightarrow> 'a::linorder list \<Rightarrow> nat \<Rightarrow> nat list" where
  "merge_sort syms conditions len =
     (if len < SORT_SWITCH_TO_INSERT_LIMIT then insertion_sort syms conditions len
      else (let m = len div 2;
                syms1 = merge_sort syms conditions m;
                syms2 = take m syms1 @ merge_sort (drop m syms1) conditions (len - m);
                temp = take len syms2;
                (syms3, i, j, k) = merge_loop syms2 temp conditions m len 0 0 m
            in if j < m then memcpy_syms syms3 i temp j (m - j)
               else if k < len then memcpy_syms syms3 i temp k (len - k)
               else syms3))"
  by pat_completeness auto
termination
  by (relation "measure (\<lambda>(syms, conditions, len). len)")
     (auto simp: SORT_SWITCH_TO_INSERT_LIMIT_def)

declare merge_sort.simps [simp del]

section \<open>The Huffman code builder (HuffmanEncoder.h)\<close>

definition HUFF_BITS_MAX :: nat where "HUFF_BITS_MAX = 15"

record HuffmanEncoder =
  codes :: "16 word list"
  lens :: "8 word list"

subsection \<open>\<open>CreateCodesSlow\<close>: package-merge\<close>

text \<open>
  A \<open>collection\<close> counts, for every symbol, how often the symbol occurs in a package, and
  holds the weight of the package (the field \<open>count\<close>, here \<open>count_c\<close>; \<open>uint_fast16_t\<close>,
  64 bits wide).  The arrays \<open>cols\<close> and
  \<open>next_cols\<close> together with their lengths \<open>cols_len\<close> and \<open>next_cols_len\<close> are lists.
\<close>

record collection =
  symbols :: "8 word list"
  count_c :: "64 word"

text \<open>
  \<open>for (i = 0; i < SYMBOLS; ++i) { if (symbol_counts[i]) { syms_by_count[len] = i;
  syms_by_len[len++] = i; ctx->lens[i] = HUFF_BITS_MAX; } }\<close>: the symbols found (both
  arrays receive the same values) and the initial lengths.
\<close>

definition found_syms :: "32 word list \<Rightarrow> nat list \<times> 8 word list" where
  "found_syms symbol_counts =
     fold (\<lambda>i (syms, ls).
             if symbol_counts ! i \<noteq> 0 then (syms @ [i], ls[i := word_of_nat HUFF_BITS_MAX])
             else (syms, ls))
          [0..<SYMBOLS] ([], replicate SYMBOLS 0)"

text \<open>
  One pass of the body of \<open>for (i = 0; i < 2; ++i)\<close>: the cheaper of the next package
  and the next symbol is added to the package \<open>nc\<close> under construction.
\<close>

definition pm_add ::
  "32 word list \<Rightarrow> nat list \<Rightarrow> nat \<Rightarrow> collection list
     \<Rightarrow> collection \<times> nat \<times> nat \<Rightarrow> collection \<times> nat \<times> nat" where
  "pm_add symbol_counts syms_by_count len cols = (\<lambda>(nc, cols_pos, pos).
     if len \<le> pos \<or>
        (cols_pos < length cols \<and>
         count_c (cols ! cols_pos) < ucast (symbol_counts ! (syms_by_count ! pos)))
     then (nc\<lparr>count_c := count_c nc + count_c (cols ! cols_pos),
              symbols := map (\<lambda>s. symbols nc ! s + symbols (cols ! cols_pos) ! s) [0..<SYMBOLS]\<rparr>,
           cols_pos + 1, pos)
     else (nc\<lparr>count_c := count_c nc + ucast (symbol_counts ! (syms_by_count ! pos)),
              symbols := (symbols nc)[syms_by_count ! pos :=
                                        symbols nc ! (syms_by_count ! pos) + 1]\<rparr>,
           cols_pos, pos + 1))"

text \<open>\<open>while ((cols_len-cols_pos + len-pos) > 1)\<close>: all but the last item are packaged.\<close>

function pm_package ::
  "32 word list \<Rightarrow> nat list \<Rightarrow> nat \<Rightarrow> collection list \<Rightarrow> nat \<Rightarrow> nat \<Rightarrow> collection list
     \<Rightarrow> nat \<times> nat \<times> collection list" where
  "pm_package symbol_counts syms_by_count len cols cols_pos pos next_cols =
     (if 1 < (length cols - cols_pos) + (len - pos)
      then (let (nc, cols_pos1, pos1) =
                  pm_add symbol_counts syms_by_count len cols
                    (pm_add symbol_counts syms_by_count len cols
                       (\<lparr>symbols = replicate SYMBOLS 0, count_c = 0\<rparr>, cols_pos, pos))
            in pm_package symbol_counts syms_by_count len cols cols_pos1 pos1 (next_cols @ [nc]))
      else (cols_pos, pos, next_cols))"
  by pat_completeness auto
termination
  by (relation "measure (\<lambda>(symbol_counts, syms_by_count, len, cols, cols_pos, pos, next_cols).
                           (length cols - cols_pos) + (len - pos))")
     (auto simp: pm_add_def split: if_splits)

declare pm_package.simps [simp del]

text \<open>
  One iteration of \<open>for (j = 0; j < HUFF_BITS_MAX; ++j)\<close>: package, drop the leftover
  (decrementing the lengths of its symbols), and make \<open>next_cols\<close> the current \<open>cols\<close>.
\<close>

definition pm_round ::
  "32 word list \<Rightarrow> nat list \<Rightarrow> nat \<Rightarrow> 8 word list \<times> collection list
     \<Rightarrow> 8 word list \<times> collection list" where
  "pm_round symbol_counts syms_by_count len = (\<lambda>(ls, cols).
     let (cols_pos, pos, next_cols) = pm_package symbol_counts syms_by_count len cols 0 0 [];
         ls1 = (if cols_pos < length cols
                then map (\<lambda>i. ls ! i - symbols (cols ! cols_pos) ! i) [0..<SYMBOLS]
                else if pos < len
                then ls[syms_by_count ! pos := ls ! (syms_by_count ! pos) - 1]
                else ls)
     in (ls1, next_cols))"

text \<open>
  \<open>for (i = 1; i < len; ++i)\<close>: the code of a symbol is the code of its predecessor plus
  one, shifted left by the difference of the lengths, truncated to \<open>uint16_t\<close>.  The
  difference is not negative when \<open>syms_by_len\<close> is sorted by length.
\<close>

function slow_codes :: "nat list \<Rightarrow> 8 word list \<Rightarrow> nat \<Rightarrow> nat \<Rightarrow> 16 word list \<Rightarrow> 16 word list" where
  "slow_codes syms_by_len ls len i cs =
     (if i < len
      then slow_codes syms_by_len ls len (i + 1)
             (cs[syms_by_len ! i :=
                   push_bit (unat (ls ! (syms_by_len ! i)) - unat (ls ! (syms_by_len ! (i - 1))))
                     (cs ! (syms_by_len ! (i - 1)) + 1)])
      else cs)"
  by pat_completeness auto
termination
  by (relation "measure (\<lambda>(syms_by_len, ls, len, i, cs). len - i)") auto

declare slow_codes.simps [simp del]

definition CreateCodesSlow :: "32 word list \<Rightarrow> HuffmanEncoder" where
  "CreateCodesSlow symbol_counts =
     (let (syms, ls0) = found_syms symbol_counts;
          len = length syms;
          syms_by_count = merge_sort syms symbol_counts len
      in if len = 1
         then \<lparr>codes = replicate SYMBOLS 0, lens = ls0[syms_by_count ! 0 := 1]\<rparr>
         else (let (ls, cols) =
                     ((pm_round symbol_counts syms_by_count len) ^^ HUFF_BITS_MAX) (ls0, []);
                   syms_by_len = merge_sort syms ls len
               in \<lparr>codes = slow_codes syms_by_len ls len 1 (replicate SYMBOLS 0), lens = ls\<rparr>))"

subsection \<open>\<open>CreateCodes\<close>: the heap-based builder\<close>

text \<open>
  \<open>weights\<close> has \<open>2 * SYMBOLS\<close> entries, \<open>heap\<close> has \<open>SYMBOLS + 2\<close> entries of which
  \<open>heap[1 .. heap_len]\<close> are in use, \<open>parents\<close> has \<open>2 * SYMBOLS\<close> entries; indices and
  lengths are \<open>uint_fast16_t\<close> values far below \<open>2^64\<close> and are modelled as naturals.  The
  \<open>while\<close> and \<open>for (;;)\<close> loops of the macros and of the function end only because of what
  the arrays hold, so they are partial functions: \<open>None\<close> stands for a loop that does not
  end.
\<close>

text \<open>\<open>while (weights[x] < weights[heap[j>>1]]) { heap[j] = heap[j>>1]; j >>= 1; }\<close>\<close>

partial_function (option) heap_push_loop ::
  "32 word list \<Rightarrow> nat list \<Rightarrow> nat \<Rightarrow> nat \<Rightarrow> (nat list \<times> nat) option" where
  "heap_push_loop weights heap x j =
     (if weights ! x < weights ! (heap ! (j div 2))
      then heap_push_loop weights (heap[j := heap ! (j div 2)]) x (j div 2)
      else Some (heap, j))"

definition HEAP_PUSH :: "32 word list \<Rightarrow> nat list \<times> nat \<Rightarrow> nat \<Rightarrow> (nat list \<times> nat) option" where
  "HEAP_PUSH weights = (\<lambda>(heap, heap_len) x.
     Option.bind (heap_push_loop weights (heap[heap_len + 1 := x]) x (heap_len + 1))
       (\<lambda>(heap1, j). Some (heap1[j := x], heap_len + 1)))"

text \<open>The \<open>for (;;)\<close> loop of \<open>HEAP_POP\<close>.\<close>

partial_function (option) heap_pop_loop ::
  "32 word list \<Rightarrow> nat list \<Rightarrow> nat \<Rightarrow> nat \<Rightarrow> nat \<Rightarrow> (nat list \<times> nat) option" where
  "heap_pop_loop weights heap heap_len t i =
     (if heap_len < 2 * i then Some (heap, i)
      else (let j = (if 2 * i < heap_len \<and>
                        weights ! (heap ! (2 * i + 1)) < weights ! (heap ! (2 * i))
                     then 2 * i + 1 else 2 * i)
            in if weights ! t < weights ! (heap ! j) then Some (heap, i)
               else heap_pop_loop weights (heap[i := heap ! j]) heap_len t j))"

text \<open>
  \<open>HEAP_POP\<close>: \<open>t = heap[1] = heap[heap_len--]\<close>, the loop, \<open>heap[i] = t\<close>.  It is only
  used with \<open>heap_len \<ge> 1\<close>.
\<close>

definition HEAP_POP :: "32 word list \<Rightarrow> nat list \<times> nat \<Rightarrow> (nat list \<times> nat) option" where
  "HEAP_POP weights = (\<lambda>(heap, heap_len).
     let t = heap ! heap_len
     in Option.bind (heap_pop_loop weights (heap[1 := t]) (heap_len - 1) t 1)
          (\<lambda>(heap1, i). Some (heap1[i := t], heap_len - 1)))"

text \<open>\<open>for (i = 1; i <= SYMBOLS; ++i) { HEAP_PUSH(i); }\<close>, over the list of the \<open>i\<close>.\<close>

fun push_all :: "32 word list \<Rightarrow> nat list \<Rightarrow> nat list \<times> nat \<Rightarrow> (nat list \<times> nat) option" where
  "push_all weights [] h = Some h"
| "push_all weights (x # xs) h = Option.bind (HEAP_PUSH weights h x) (push_all weights xs)"

text \<open>
  \<open>while (heap_len > 1)\<close>: the two lightest nodes become the children of a new node; the
  upper 24 bits of a weight are the weight proper, the lower 8 bits the depth.
\<close>

partial_function (option) build_tree ::
  "32 word list \<Rightarrow> nat list \<times> nat \<Rightarrow> nat \<Rightarrow> nat list \<Rightarrow> (32 word list \<times> nat list) option" where
  "build_tree weights h n_nodes parents =
     (if 1 < snd h
      then (let n1 = fst h ! 1
            in Option.bind (HEAP_POP weights h) (\<lambda>h1.
                 let n2 = fst h1 ! 1
                 in Option.bind (HEAP_POP weights h1) (\<lambda>h2.
                      let n_nodes1 = n_nodes + 1;
                          parents1 = parents[n2 := n_nodes1, n1 := n_nodes1];
                          weights1 = weights[n_nodes1 :=
                            ((weights ! n1 AND 0xffffff00) + (weights ! n2 AND 0xffffff00)) OR
                            (1 + max (weights ! n1 AND 0x000000ff) (weights ! n2 AND 0x000000ff))]
                      in Option.bind (HEAP_PUSH weights1 h2 n_nodes1) (\<lambda>h3.
                           build_tree weights1 h3 n_nodes1 parents1))))
      else Some (weights, parents))"

text \<open>\<open>while (parents[k] > 0) { k = parents[k]; ++j; }\<close> with \<open>uint8_t j\<close>.\<close>

partial_function (option) walk_up :: "nat list \<Rightarrow> nat \<Rightarrow> 8 word \<Rightarrow> 8 word option" where
  "walk_up parents k j =
     (if 0 < parents ! k then walk_up parents (parents ! k) (j + 1) else Some j)"

text \<open>
  \<open>for (i = 1; i <= SYMBOLS; ++i)\<close>: the length of symbol \<open>i - 1\<close> is the number of hops
  from leaf \<open>i\<close> to the root.
\<close>

fun fast_lens ::
  "nat list \<Rightarrow> nat list \<Rightarrow> 8 word list \<times> bool \<Rightarrow> (8 word list \<times> bool) option" where
  "fast_lens parents [] r = Some r"
| "fast_lens parents (i # is) (ls, too_long) =
     Option.bind (walk_up parents i 0) (\<lambda>j.
       fast_lens parents is
         (ls[i - 1 := j], if word_of_nat HUFF_BITS_MAX < j then True else too_long))"

text \<open>
  The \<open>for (;;)\<close> loop: build the heap and the tree, read off the lengths, and if one of
  them exceeds \<open>HUFF_BITS_MAX\<close> halve the weights of the symbols and start again.
\<close>

partial_function (option) CreateCodes_loop :: "32 word list \<Rightarrow> 8 word list \<Rightarrow> 8 word list option" where
  "CreateCodes_loop weights ls =
     Option.bind (push_all weights [1..<SYMBOLS + 1] (replicate (SYMBOLS + 2) 0, 0)) (\<lambda>h.
       Option.bind (build_tree weights h SYMBOLS (replicate (SYMBOLS * 2) 0)) (\<lambda>(weights1, parents).
         Option.bind (fast_lens parents [1..<SYMBOLS + 1] (ls, False)) (\<lambda>(ls1, too_long).
           if \<not> too_long then Some ls1
           else CreateCodes_loop
                  (fold (\<lambda>i w. w[i := push_bit 8 (1 + drop_bit 9 (w ! i))]) [1..<SYMBOLS + 1] weights1)
                  ls1)))"

text \<open>
  \<open>for (i = 0; i < SYMBOLS; ++i) { if (ctx->lens[i] == n) { ctx->codes[i] = code++; } }\<close>
\<close>

definition codes_of_len :: "8 word list \<Rightarrow> nat \<Rightarrow> 16 word list \<times> 16 word \<Rightarrow> 16 word list \<times> 16 word" where
  "codes_of_len ls n =
     fold (\<lambda>i (cs, code). if unat (ls ! i) = n then (cs[i := code], code + 1) else (cs, code))
       [0..<SYMBOLS]"

text \<open>\<open>for (n = min; n <= max; ++n) { ...; code <<= 1; }\<close>\<close>

function fast_codes :: "8 word list \<Rightarrow> nat \<Rightarrow> nat \<Rightarrow> 16 word list \<times> 16 word \<Rightarrow> 16 word list" where
  "fast_codes ls n mx cc =
     (if n \<le> mx
      then fast_codes ls (n + 1) mx (let (cs, code) = codes_of_len ls n cc in (cs, push_bit 1 code))
      else fst cc)"
  by pat_completeness auto
termination
  by (relation "measure (\<lambda>(ls, n, mx, cc). mx + 1 - n)") auto

declare fast_codes.simps [simp del]

text \<open>
  The minimum and maximum of the lengths, as the loop computes them.
\<close>

definition lens_min_max :: "8 word list \<Rightarrow> nat \<times> nat" where
  "lens_min_max ls =
     fold (\<lambda>i (mn, mx). if mx < unat (ls ! i) then (mn, unat (ls ! i))
                          else if unat (ls ! i) < mn then (unat (ls ! i), mx) else (mn, mx))
       [1..<SYMBOLS] (unat (ls ! 0), unat (ls ! 0))"

text \<open>
  \<open>CreateCodes\<close>.  The entries of \<open>weights\<close> above \<open>SYMBOLS\<close> are not initialised by the
  code and are written before they are read; they start as 0 here.  The previous contents
  \<open>ls0\<close> of \<open>ctx->lens\<close> are overwritten.
\<close>

definition CreateCodes :: "8 word list \<Rightarrow> 32 word list \<Rightarrow> HuffmanEncoder option" where
  "CreateCodes ls0 symbol_counts =
     (let weights = 0 # map (\<lambda>i. push_bit 8 (if symbol_counts ! i = 0 then 1 else symbol_counts ! i))
                          [0..<SYMBOLS] @ replicate (SYMBOLS - 1) 0
      in Option.bind (CreateCodes_loop weights ls0) (\<lambda>ls.
           let (mn, mx) = lens_min_max ls
           in Some \<lparr>codes = fast_codes ls mn mx (replicate SYMBOLS 0, 0), lens = ls\<rparr>))"

section \<open>Concrete buffers\<close>

text \<open>
  An input buffer holding the bytes \<open>bs\<close> (and zero bytes around them), and buffers whose
  bytes are all zero or whose pointers are all null.
\<close>

definition input_of :: "8 word list \<Rightarrow> input" where
  "input_of bs = (\<lambda>p. if 0 \<le> p \<and> p < int (length bs) then bs ! nat p else 0)"

definition zeroed :: memory where
  "zeroed = (\<lambda>_. 0)"

definition cleared :: "nat \<Rightarrow> pntr" where
  "cleared = (\<lambda>_. NULL)"

section \<open>The chunk pipeline\<close>

subsection \<open>\<open>xh_compress_lz77\<close>\<close>

text \<open>
  \<open>(uint8_t)log2((uint16_t)x)\<close> for the nonzero values the encoder passes: the double
  logarithm of an integer below \<open>2^16\<close>, truncated, is the index of its highest set bit.
\<close>

fun log2 :: "nat \<Rightarrow> nat" where
  "log2 n = (if n < 2 then 0 else Suc (log2 (n div 2)))"

declare log2.simps [simp del]

text \<open>
  The local variables of \<open>xh_compress_lz77\<close> that its loops change, each with the
  prefix \<open>lz_\<close>.  \<open>lz_m\<close> is the intermediate buffer that \<open>out\<close> and \<open>mask_out\<close> point into,
  \<open>lz_sc\<close> is \<open>symbol_counts\<close>.
\<close>

record lz77_state =
  lz_in :: int
  lz_rem :: int
  lz_out :: nat
  lz_m :: memory
  lz_sc :: "32 word list"
  lz_mask :: "32 word"
  lz_mask_out :: nat
  lz_i :: nat

text \<open>
  The body of \<open>for (i = 0; i < 32 && rem > 0; ++i)\<close>.  \<open>off\<close> is not initialised before
  \<open>Find\<close> is called and is read only when \<open>Find\<close> has written it; it starts as 0 here.
\<close>

definition lz77_item :: "XpressDictionary \<Rightarrow> input \<Rightarrow> lz77_state \<Rightarrow> lz77_state" where
  "lz77_item d inp st =
     (let mask1 = drop_bit 1 (lz_mask st);
          (len0, off0) = Find d inp (lz_in st) 0
      in if 3 \<le> lz_rem st \<and> 3 \<le> len0
         then (let len1 = (if word_of_int (lz_rem st) < len0 then word_of_int (lz_rem st) else len0);
                   len = len1 - 3;
                   off_bits = (word_of_nat (log2 (unat (ucast (off0 OR 1) :: 16 word))) :: 8 word);
                   sym = (push_bit 4 off_bits OR ucast (min 0xF len) :: 8 word);
                   off = off0 XOR push_bit (unat off_bits) 1;
                   m1 = SET_UINT16_RAW ((lz_m st)(lz_out st := sym)) (lz_out st + 1) (ucast off);
                   out1 = lz_out st + 3;
                   (m2, out2) =
                     (if 0xFFFF < len
                      then (SET_UINT32_RAW (SET_UINT16_RAW (m1(out1 := 0xFF)) (out1 + 1) 0)
                              (out1 + 3) len, out1 + 7)
                      else if 0xFF + 0xF \<le> len
                      then (SET_UINT16_RAW (m1(out1 := 0xFF)) (out1 + 1) (ucast len), out1 + 3)
                      else if 0xF \<le> len
                      then (m1(out1 := ucast (len - 0xF)), out1 + 1)
                      else (m1, out1))
               in st\<lparr>lz_in := lz_in st + uint len1, lz_rem := lz_rem st - uint len1,
                      lz_out := out2, lz_m := m2,
                      lz_sc := (lz_sc st)[0x100 + unat sym := lz_sc st ! (0x100 + unat sym) + 1],
                      lz_mask := mask1 OR 0x80000000\<rparr>)
         else st\<lparr>lz_in := lz_in st + 1, lz_rem := lz_rem st - 1, lz_out := lz_out st + 1,
                 lz_m := (lz_m st)(lz_out st := inp (lz_in st)),
                 lz_sc := (lz_sc st)[unat (inp (lz_in st)) := lz_sc st ! unat (inp (lz_in st)) + 1],
                 lz_mask := mask1\<rparr>)"

function lz77_group :: "XpressDictionary \<Rightarrow> input \<Rightarrow> lz77_state \<Rightarrow> lz77_state" where
  "lz77_group d inp st =
     (if lz_i st < 32 \<and> 0 < lz_rem st
      then lz77_group d inp ((lz77_item d inp st)\<lparr>lz_i := lz_i st + 1\<rparr>)
      else st)"
  by pat_completeness auto
termination
  by (relation "measure (\<lambda>(d, inp, st). 32 - lz_i st)") auto

declare lz77_group.simps [simp del]

text \<open>\<open>while (rem > 0)\<close>: one group of up to 32 items per iteration.\<close>

partial_function (option) lz77_loop ::
  "XpressDictionary \<Rightarrow> input \<Rightarrow> lz77_state \<Rightarrow> lz77_state option" where
  "lz77_loop d inp st =
     (if 0 < lz_rem st
      then (let st1 = lz77_group d inp
                        (st\<lparr>lz_mask := 0, lz_mask_out := lz_out st, lz_out := lz_out st + 4, lz_i := 0\<rparr>)
            in lz77_loop d inp (st1\<lparr>lz_m := SET_UINT32_RAW (lz_m st1) (lz_mask_out st1) (lz_mask st1)\<rparr>))
      else Some st)"

text \<open>
  \<open>xh_compress_lz77\<close>: the returned byte count, the intermediate buffer, the histogram
  and the dictionary after \<open>Fill\<close>.  \<open>mask\<close>, \<open>mask_out\<close> and \<open>i\<close> are not initialised
  before the loop; the function is called with \<open>in_len > 0\<close> only, so that the loop
  assigns them.
\<close>

definition xh_compress_lz77 ::
  "input \<Rightarrow> int \<Rightarrow> int \<Rightarrow> int \<Rightarrow> nat \<Rightarrow> memory \<Rightarrow> XpressDictionary
     \<Rightarrow> (nat \<times> memory \<times> 32 word list \<times> XpressDictionary) option" where
  "xh_compress_lz77 inp in_orig in_len in_end out_orig buf d =
     (let d1 = Fill d inp in_orig
      in Option.bind
           (lz77_loop d1 inp
              \<lparr>lz_in = in_orig, lz_rem = in_len, lz_out = out_orig, lz_m = buf,
               lz_sc = replicate SYMBOLS 0, lz_mask = 0, lz_mask_out = out_orig, lz_i = 0\<rparr>)
           (\<lambda>st.
              let mask1 = drop_bit (32 - lz_i st) (lz_mask st);
                  (m1, out1, sc1, mask2) =
                    (if in_orig + in_len = in_end
                     then (let (m0, out0, mask0) =
                                 (if lz_i st = 32
                                  then (SET_UINT32_RAW (lz_m st) (lz_out st) 1, lz_out st + 4, mask1)
                                  else (lz_m st, lz_out st, mask1 OR push_bit (lz_i st) 1))
                           in (SET_UINT32_RAW m0 out0 0, out0 + 3,
                               (lz_sc st)[STREAM_END := lz_sc st ! STREAM_END + 1], mask0))
                     else (lz_m st, lz_out st, lz_sc st, mask1))
              in Some (out1 - out_orig, SET_UINT32_RAW m1 (lz_mask_out st) mask2, sc1, d1)))"

subsection \<open>The size of the encoded chunk\<close>

text \<open>
  \<open>size_t\<close> is 64 bits wide.  In \<open>xh_calc_compressed_len\<close> the products of the first loop
  are \<open>uint32_t\<close> products; those of the second loop have a \<open>uint_fast16_t\<close> factor and are
  64-bit products.
\<close>

definition xh_calc_compressed_len :: "8 word list \<Rightarrow> 32 word list \<Rightarrow> 64 word \<Rightarrow> 64 word" where
  "xh_calc_compressed_len ls symbol_counts buf_len =
     (let (sym_bits1, literal_syms) =
            fold (\<lambda>i (sb, lit). (sb + ucast (ucast (ls ! i) * symbol_counts ! i :: 32 word),
                                  lit + symbol_counts ! i))
              [0..<0x100] (16 :: 64 word, 0 :: 32 word);
          (sym_bits, match_syms) =
            fold (\<lambda>i (sb, mt). (sb + (ucast (ls ! i) + word_of_nat ((i div 16) mod 16)) *
                                       ucast (symbol_counts ! i),
                                  mt + symbol_counts ! i))
              [0x100..<SYMBOLS] (sym_bits1, 0 :: 32 word)
      in (sym_bits + 15) div 16 * 2 +
         (buf_len - ucast (literal_syms + match_syms * 3 +
                           (literal_syms + match_syms + 31) div 32 * 4)))"

definition xh_calc_compressed_len_no_matching :: "8 word list \<Rightarrow> 32 word list \<Rightarrow> 64 word" where
  "xh_calc_compressed_len_no_matching ls symbol_counts =
     (let sym_bits =
            fold (\<lambda>i sb. sb + ucast (ucast (ls ! i) * symbol_counts ! i :: 32 word))
              [0..<0x100 + 1] (16 :: 64 word)
      in (sym_bits + 15) div 16 * 2)"

subsection \<open>\<open>xh_compress_encode\<close>\<close>

definition EncodeSymbol ::
  "HuffmanEncoder \<Rightarrow> nat \<Rightarrow> OutputBitstream \<times> memory \<Rightarrow> OutputBitstream \<times> memory" where
  "EncodeSymbol ctx symb =
     (\<lambda>(bstr, om). WriteBits bstr om (ucast (codes ctx ! symb)) (lens ctx ! symb))"

text \<open>
  The state of the encoding loops: the read position \<open>in\<close> in the intermediate buffer, the
  counter \<open>i\<close>, the mask, and the bitstream with the output buffer.
\<close>

type_synonym enc_state = "nat \<times> nat \<times> 32 word \<times> OutputBitstream \<times> memory"

text \<open>
  One pass of the body of \<open>for (...; mask && in < in_end; --i, mask >>= 1)\<close> together with
  the step \<open>--i, mask >>= 1\<close>.
\<close>

definition encode_item :: "HuffmanEncoder \<Rightarrow> memory \<Rightarrow> enc_state \<Rightarrow> enc_state" where
  "encode_item enc buf = (\<lambda>(inn, k, mask, bo).
     if mask AND 1 \<noteq> 0
     then (let sym = buf inn;
               off = GET_UINT16_RAW buf (inn + 1);
               in1 = inn + 3;
               bo1 = EncodeSymbol enc (0x100 + unat sym) bo;
               (in2, bo2) =
                 (if sym AND 0xF = 0xF
                  then (let len8 = buf in1;
                            bo3 = WriteRawByte (fst bo1) (snd bo1) len8
                        in if len8 = 0xFF
                           then (let len16 = GET_UINT16_RAW buf (in1 + 1);
                                     bo4 = WriteRawUInt16 (fst bo3) (snd bo3) len16
                                 in if len16 = 0
                                    then (in1 + 7,
                                          WriteRawUInt32 (fst bo4) (snd bo4)
                                            (GET_UINT32_RAW buf (in1 + 3)))
                                    else (in1 + 3, bo4))
                           else (in1 + 1, bo3))
                  else (in1, bo1))
           in (in2, k - 1, drop_bit 1 mask,
               WriteBits (fst bo2) (snd bo2) (ucast off) (drop_bit 4 sym)))
     else (inn + 1, k - 1, drop_bit 1 mask, EncodeSymbol enc (unat (buf inn)) bo))"

function encode_group :: "HuffmanEncoder \<Rightarrow> memory \<Rightarrow> nat \<Rightarrow> enc_state \<Rightarrow> enc_state" where
  "encode_group enc buf in_end st =
     (if fst (snd (snd st)) \<noteq> 0 \<and> fst st < in_end
      then encode_group enc buf in_end (encode_item enc buf st)
      else st)"
  by pat_completeness auto
termination
proof (relation "measure (\<lambda>(enc, buf, in_end, st). unat (fst (snd (snd st))))", goal_cases)
  case 1
  show ?case by simp
next
  case (2 enc buf in_end st)
  obtain inn k mask bo where st: "st = (inn, k, mask, bo)" by (cases st) auto
  have "mask \<noteq> 0" using 2 st by simp
  then have "drop_bit 1 mask < mask"
    by (simp add: drop_bit_eq_div word_less_nat_alt unat_div unat_gt_0)
  then have "unat (drop_bit 1 mask) < unat mask" by (simp add: word_less_nat_alt)
  then show ?case by (simp add: st encode_item_def Let_def split: prod.splits)
qed

declare encode_group.simps [simp del]

text \<open>\<open>for (end = MIN(in+i, in_end); in != end; ++in) { EncodeSymbol(encoder, *in, &bstr); }\<close>\<close>

partial_function (option) encode_literals ::
  "HuffmanEncoder \<Rightarrow> memory \<Rightarrow> nat \<Rightarrow> nat \<Rightarrow> OutputBitstream \<times> memory
     \<Rightarrow> (nat \<times> OutputBitstream \<times> memory) option" where
  "encode_literals enc buf inn e bo =
     (if inn \<noteq> e
      then encode_literals enc buf (inn + 1) e (EncodeSymbol enc (unat (buf inn)) bo)
      else Some (inn, bo))"

partial_function (option) encode_loop ::
  "HuffmanEncoder \<Rightarrow> memory \<Rightarrow> nat \<Rightarrow> nat \<Rightarrow> OutputBitstream \<times> memory
     \<Rightarrow> (OutputBitstream \<times> memory) option" where
  "encode_loop enc buf inn in_end bo =
     (if inn < in_end
      then (let (in1, k, mask, bo1) =
                  encode_group enc buf in_end (inn + 4, 32, GET_UINT32_RAW buf inn, bo)
            in Option.bind (encode_literals enc buf in1 (min (in1 + k) in_end) bo1)
                 (\<lambda>(in2, bo2). encode_loop enc buf in2 in_end bo2))
      else Some bo)"

definition xh_compress_encode ::
  "memory \<Rightarrow> nat \<Rightarrow> nat \<Rightarrow> nat \<Rightarrow> memory \<Rightarrow> HuffmanEncoder \<Rightarrow> memory option" where
  "xh_compress_encode buf inn in_end outp om enc =
     Option.bind (encode_loop enc buf inn in_end (OutputBitstream_init outp, om))
       (\<lambda>(bstr, om1). Some (Finish bstr om1))"

subsection \<open>\<open>xpress_huff_compress\<close>\<close>

datatype error = ENOMEM | ENOBUFS

definition MIN_DATA :: nat where "MIN_DATA = HALF_SYMBOLS + 4"

text \<open>
  \<open>for (end = lens + SYMBOLS; lens < end; lens += 2) { *out++ = lens[0] | (lens[1] << 4); }\<close>
\<close>

definition write_lens :: "memory \<Rightarrow> nat \<Rightarrow> 8 word list \<Rightarrow> memory" where
  "write_lens om outp ls =
     fold (\<lambda>k om1. om1(outp + k := ls ! (2 * k) OR push_bit 4 (ls ! (2 * k + 1))))
       [0..<HALF_SYMBOLS] om"

text \<open>
  What the code does for one chunk of \<open>chunk_len\<close> bytes at \<open>in\<close>: the LZ77 pass, the fast
  code builder, the size computation, the literals-only pass with the package-merge
  builder when the size exceeds \<open>limit\<close>, the buffer check, the header and the encoding.
  The result is the error, or the new \<open>out\<close>, \<open>out_len\<close>, output buffer, intermediate
  buffer, dictionary and lengths.  \<open>is_end\<close> is the argument given to
  \<open>xh_compress_no_matching\<close>.
\<close>

record chunk_state =
  c_out :: nat
  c_out_len :: "64 word"
  c_om :: memory
  c_buf :: memory
  c_d :: XpressDictionary
  c_lens :: "8 word list"

definition compress_chunk ::
  "input \<Rightarrow> int \<Rightarrow> nat \<Rightarrow> int \<Rightarrow> 64 word \<Rightarrow> int \<Rightarrow> chunk_state \<Rightarrow> (error + chunk_state) option" where
  "compress_chunk inp inn chunk_len in_end limit is_end cs =
     Option.bind (xh_compress_lz77 inp inn (int chunk_len) in_end 0 (c_buf cs) (c_d cs))
       (\<lambda>(buf_len0, buf0, sc0, d1).
          Option.bind (CreateCodes (c_lens cs) sc0) (\<lambda>enc0.
            let comp_len0 = xh_calc_compressed_len (lens enc0) sc0 (word_of_nat buf_len0);
                (buf_len, buf1, enc, comp_len) =
                  (if limit < comp_len0
                   then (let (bl, b, sc1) = xh_compress_no_matching inp inn chunk_len is_end 0 buf0;
                             e = CreateCodesSlow sc1
                         in (bl, b, e, xh_calc_compressed_len_no_matching (lens e) sc1))
                   else (buf_len0, buf0, enc0, comp_len0))
            in if c_out_len cs < word_of_nat HALF_SYMBOLS + comp_len
               then Some (Inl ENOBUFS)
               else Option.bind
                      (xh_compress_encode buf1 0 buf_len (c_out cs + HALF_SYMBOLS)
                         (write_lens (c_om cs) (c_out cs) (lens enc)) enc)
                      (\<lambda>om1. Some (Inr (cs\<lparr>c_out := c_out cs + HALF_SYMBOLS + unat comp_len,
                                              c_out_len := c_out_len cs - (word_of_nat HALF_SYMBOLS + comp_len),
                                              c_om := om1, c_buf := buf1, c_d := d1,
                                              c_lens := lens enc\<rparr>)))))"

text \<open>\<open>while (in_len > CHUNK_SIZE)\<close>: every chunk except the last.\<close>

function compress_chunks ::
  "input \<Rightarrow> int \<Rightarrow> nat \<Rightarrow> int \<Rightarrow> chunk_state \<Rightarrow> (error + int \<times> nat \<times> chunk_state) option" where
  "compress_chunks inp inn in_len in_end cs =
     (if CHUNK_SIZE < in_len
      then (case compress_chunk inp inn CHUNK_SIZE in_end (word_of_nat CHUNK_SIZE + 2) 0 cs of
              None \<Rightarrow> None
            | Some (Inl e) \<Rightarrow> Some (Inl e)
            | Some (Inr cs1) \<Rightarrow>
                compress_chunks inp (inn + int CHUNK_SIZE) (in_len - CHUNK_SIZE) in_end cs1)
      else Some (Inr (inn, in_len, cs)))"
  by pat_completeness auto
termination
  by (relation "measure (\<lambda>(inp, inn, in_len, in_end, cs). in_len)")
     (auto simp: CHUNK_SIZE_def)

declare compress_chunks.simps [simp del]

text \<open>
  \<open>xpress_huff_compress\<close>.  \<open>malloc_ok\<close> tells whether the allocation of the intermediate
  buffer succeeds; \<open>w0\<close>, \<open>buf0\<close> and \<open>ls0\<close> are the contents of the memory that the code
  does not initialise (the dictionary window, the intermediate buffer, the lengths of the
  encoder).  The input pointer \<open>in\<close> is offset 0 of \<open>input_of bs\<close>, the output pointer \<open>out\<close>
  offset 0 of \<open>om\<close>, \<open>out_len\<close> is the value of \<open>*_out_len\<close> at the call.  The result is
  the error code, or on return code 0 the value stored to \<open>*_out_len\<close> and the output
  buffer.
\<close>

definition xpress_huff_compress ::
  "bool \<Rightarrow> (nat \<Rightarrow> pntr) \<Rightarrow> memory \<Rightarrow> 8 word list \<Rightarrow> 8 word list \<Rightarrow> memory \<Rightarrow> 64 word
     \<Rightarrow> (error + 64 word \<times> memory) option" where
  "xpress_huff_compress malloc_ok w0 buf0 ls0 bs om out_len =
     (let in_len = length bs; inp = input_of bs; in_end = int (length bs)
      in if in_len = 0 then Some (Inr (0, om))
         else if \<not> malloc_ok then Some (Inl ENOMEM)
         else (case compress_chunks inp 0 in_len in_end
                      \<lparr>c_out = 0, c_out_len = out_len, c_om = om, c_buf = buf0,
                       c_d = XpressDictionary_init w0 0 in_end, c_lens = ls0\<rparr> of
                 None \<Rightarrow> None
               | Some (Inl e) \<Rightarrow> Some (Inl e)
               | Some (Inr (inn, in_len1, cs)) \<Rightarrow>
                   if in_len1 = 0
                   then (if c_out_len cs < word_of_nat MIN_DATA then Some (Inl ENOBUFS)
                         else Some (Inr (word_of_nat (c_out cs + MIN_DATA),
                                 (\<lambda>a. if c_out cs \<le> a \<and> a < c_out cs + MIN_DATA
                                       then (if a = c_out cs + STREAM_END div 2 then 1 else 0)
                                       else c_om cs a))))
                   else (case compress_chunk inp inn in_len1 in_end (word_of_nat in_len1 + 36) 1 cs of
                           None \<Rightarrow> None
                         | Some (Inl e) \<Rightarrow> Some (Inl e)
                         | Some (Inr cs1) \<Rightarrow> Some (Inr (word_of_nat (c_out cs1), c_om cs1)))))"

section \<open>Specification functions\<close>

text \<open>
  The merge of two symbol lists that takes the head of the right list only when its key
  is strictly smaller than the key of the head of the left list.
\<close>

fun fmerge :: "(nat \<Rightarrow> 'a::linorder) \<Rightarrow> nat list \<Rightarrow> nat list \<Rightarrow> nat list" where
  "fmerge key [] ys = ys"
| "fmerge key xs [] = xs"
| "fmerge key (x # xs) (y # ys) =
     (if key y < key x then y # fmerge key (x # xs) ys else x # fmerge key xs (y # ys))"

text \<open>
  For the package-merge rounds: \<open>tot cols s\<close> is the number of occurrences of symbol \<open>s\<close>
  in the packages \<open>cols\<close>, and \<open>cov cols syms cp p s\<close> the number of occurrences of \<open>s\<close> among
  the first \<open>cp\<close> packages and the first \<open>p\<close> symbols, that is, among the items consumed
  when the positions of a round are \<open>cols_pos = cp\<close> and \<open>pos = p\<close>.
\<close>

definition tot :: "collection list \<Rightarrow> nat \<Rightarrow> nat" where
  "tot cols s = sum_list (map (\<lambda>c. unat (symbols c ! s)) cols)"

definition cov :: "collection list \<Rightarrow> nat list \<Rightarrow> nat \<Rightarrow> nat \<Rightarrow> nat \<Rightarrow> nat" where
  "cov cols syms cp p s = tot (take cp cols) s + count_list (take p syms) s"

text \<open>
  The state of the package-merge loop after \<open>j\<close> rounds: every symbol of \<open>syms\<close> has received
  one coin per round, and each coin either lies in one of the current packages or was
  dropped with a leftover, which decremented the length of the symbol.
\<close>

definition pm_inv :: "nat list \<Rightarrow> nat \<Rightarrow> 8 word list \<times> collection list \<Rightarrow> bool" where
  "pm_inv syms j = (\<lambda>(ls, cols).
     length ls = SYMBOLS \<and> (\<forall>c \<in> set cols. length (symbols c) = SYMBOLS) \<and>
     (\<forall>s < SYMBOLS. tot cols s \<le> j * count_list syms s \<and>
        unat (ls ! s) + j * count_list syms s = 15 * count_list syms s + tot cols s))"

text \<open>
  The layout of the intermediate buffer of the literals-only encoder: from \<open>outp\<close> on,
  groups of 36 bytes, each a zero mask word followed by 32 literals; \<open>lit_groups m outp inp
  in_p n\<close> is the buffer \<open>m\<close> with the first \<open>n\<close> bytes of that layout written, the literals
  taken from the input at \<open>in_p\<close>.
\<close>

definition lit_groups :: "memory \<Rightarrow> nat \<Rightarrow> input \<Rightarrow> int \<Rightarrow> nat \<Rightarrow> memory" where
  "lit_groups m outp inp in_p n =
     (\<lambda>a. if outp \<le> a \<and> a < outp + n
          then (if (a - outp) mod 36 < 4 then 0
                else inp (in_p + int (32 * ((a - outp) div 36) + ((a - outp) mod 36 - 4))))
          else m a)"

section \<open>Theorems\<close>

subsection \<open>The rolling hash\<close>

lemma Fill_loop_hash_params:
  "HashShift (Fill_loop ctx inp data endx pos hash) = HashShift ctx \<and>
   HashMask (Fill_loop ctx inp data endx pos hash) = HashMask ctx"
  by (induction ctx inp data endx pos hash rule: Fill_loop.induct)
     (subst (1 2) Fill_loop.simps, simp add: Let_def)


lemma Fill_hash_params:
  "HashShift (Fill ctx inp data) = HashShift ctx \<and> HashMask (Fill ctx inp data) = HashMask ctx"
  unfolding Fill_def Let_def
  by (cases "end2 ctx \<le> data") (simp_all only: Fill_loop_hash_params if_True if_False simp_thms)


text \<open>
  Claim C7, as stated, fails: \<open>XpressDictionary_init\<close> computes the shift amount as
  \<open>(HASH_BITS + 2) / 3\<close> in integer arithmetic, which is 5 and not 6, so the update of the
  hash state 1 with the byte 0 yields 32 and not \<open>((1 << 6) XOR 0) AND 0x7FFF = 64\<close>.
\<close>

theorem HashUpdate_shift_is_not_6:
  "HashShift (XpressDictionary_init cleared 0 0) \<noteq> 6 \<and>
   HashUpdate (XpressDictionary_init cleared 0 0) 1 0 \<noteq> (push_bit 6 1 XOR ucast (0 :: 8 word)) AND 0x7FFF"
  by (simp add: HashUpdate_def XpressDictionary_init_def HASH_BITS_def Let_def)

text \<open>
  Claim C7, amended: the shift amount that \<open>XpressDictionary_init\<close> stores is
  \<open>floor((hash_bits + 2) / 3) = 5\<close> for \<open>hash_bits = 15\<close> and the mask is \<open>0x7FFF\<close>; \<open>Fill\<close>
  changes neither.  Hence for every hash state \<open>h\<close> and input byte \<open>c\<close> the hash update of
  a dictionary that went through \<open>XpressDictionary_init\<close> and \<open>Fill\<close> computes
  \<open>((h << 5) XOR c) AND 0x7FFF\<close>.
\<close>

theorem HashUpdate_shift_is_5:
  "HashShift (XpressDictionary_init w0 s e) = 5 \<and>
   HashUpdate (XpressDictionary_init w0 s e) h c = (push_bit 5 h XOR ucast c) AND 0x7FFF \<and>
   HashUpdate (Fill (XpressDictionary_init w0 s e) inp data) h c =
     (push_bit 5 h XOR ucast c) AND 0x7FFF"
proof -
  have i: "HashShift (XpressDictionary_init w0 s e) = 5"
          "HashMask (XpressDictionary_init w0 s e) = 0x7FFF"
    by (simp_all add: XpressDictionary_init_def HASH_BITS_def Let_def)
  show ?thesis
    by (simp add: HashUpdate_def Fill_hash_params i)
qed

subsection \<open>The bitstream writer\<close>

lemma and_15_minus_16:
  fixes x :: "8 word"
  assumes "16 < x" "x < 32"
  shows "x AND 0xF = x - 16"
proof -
  have m: "(0xF :: 8 word) = mask 4" by (simp add: mask_eq_exp_minus_1)
  have u: "16 < unat x" "unat x < 32" using assms by (simp_all add: word_less_nat_alt)
  have "unat (x AND 0xF) = unat x mod 16"
    unfolding m
    by (simp add: unsigned_take_bit_eq take_bit_eq_mod unat_mod flip: take_bit_eq_mask)
  also have "\<dots> = unat x - 16" using u by (simp add: le_mod_geq)
  also have "\<dots> = unat (x - 16)" using u by (simp add: unat_sub word_le_nat_alt)
  finally show ?thesis by (simp add: word_unat_eq_iff)
qed

text \<open>
  Whenever the new bit count stays below 32, \<open>WriteBits\<close> does what its comment
  (\<open>ctx->bits -= 16\<close>) says: the masking with \<open>0xF\<close> subtracts 16.
\<close>

lemma WriteBits_below_32:
  assumes "bits ctx \<le> 16" "n \<le> 16" "bits ctx + n \<noteq> 32"
  shows "WriteBits ctx m b n =
     (let bits1 = bits ctx + n;
          mask1 = mask_bs ctx OR push_bit (32 - unat bits1) b
      in if 16 < bits1
         then (ctx\<lparr>out := out ctx + 2, pntr0 := pntr1 ctx, pntr1 := out ctx,
                   mask_bs := push_bit 16 mask1, bits := bits1 - 16\<rparr>,
               SET_UINT16_RAW m (pntr0 ctx) (ucast (drop_bit 16 mask1)))
         else (ctx\<lparr>mask_bs := mask1, bits := bits1\<rparr>, m))"
proof -
  have u: "unat (bits ctx) \<le> 16" "unat n \<le> 16" using assms by (simp_all add: word_le_nat_alt)
  then have s: "unat (bits ctx + n) = unat (bits ctx) + unat n"
    by (simp add: unat_word_ariths)
  have "bits ctx + n < 32"
    using u s assms(3) by (simp add: word_less_nat_alt word_unat_eq_iff)
  then show ?thesis
    by (simp add: WriteBits_def Let_def and_15_minus_16)
qed

text \<open>
  Claim C6, as stated for every \<open>n \<le> 16\<close>, fails in one state.  A freshly initialised
  writer that receives 16 bits holds \<open>bits = 16\<close> without flushing.  A second write of 16
  bits raises the count to 32 and flushes; the claim gives \<open>32 - 16 = 16\<close> valid bits
  afterwards, and the accumulator does hold the 16 bits \<open>0x5678\<close> in its upper half, but the
  code computes \<open>32 & 0xF = 0\<close>.
\<close>

theorem WriteBits_16_after_16_loses_count:
  "WriteBits (OutputBitstream_init 0) zeroed 0x1234 16 =
     (\<lparr>out = 4, pntr0 = 0, pntr1 = 2, mask_bs = 0x12340000, bits = 16\<rparr>, zeroed) \<and>
   bits (fst (WriteBits \<lparr>out = 4, pntr0 = 0, pntr1 = 2, mask_bs = 0x12340000, bits = 16\<rparr>
                zeroed 0x5678 16)) = 0 \<and>
   mask_bs (fst (WriteBits \<lparr>out = 4, pntr0 = 0, pntr1 = 2, mask_bs = 0x12340000, bits = 16\<rparr>
                   zeroed 0x5678 16)) = 0x56780000"
  by (simp add: WriteBits_def Let_def OutputBitstream_init_def)

text \<open>
  Claim C6, amended: for every writer state with \<open>bits \<le> 16\<close> and every call with
  \<open>n \<le> 16\<close> whose new bit count \<open>bits + n\<close> lies between 1 and 31 (in particular for
  every \<open>n\<close> from 1 to 15, and for \<open>n = 0\<close> once a bit has been written; \<open>EncodeSymbol\<close>
  and the offset bits of a match never pass more than 15; for a new bit count of 0 the
  shift count is 32, which C leaves undefined), the value is ORed into the accumulator at
  bit offset \<open>32 - (bits + n)\<close> and the bit count grows by \<open>n\<close>; when the new count exceeds 16 the top 16 accumulator bits are
  stored little-endian into the pending slot and nothing else is stored, next-pending
  becomes pending, the cursor position becomes next-pending, the cursor advances by 2, the
  accumulator is shifted left by 16 and the bit count drops by 16; otherwise nothing is
  stored and the slots and the cursor stay.  In both cases the bit count stays at most 16.
\<close>

theorem WriteBits_spec:
  assumes "unat (bits ctx) \<le> 16" "unat n \<le> 16" "unat (bits ctx) + unat n < 32"
    and "0 < unat (bits ctx) + unat n"
  shows "(let nb = unat (bits ctx) + unat n;
              acc = mask_bs ctx OR push_bit (32 - nb) b;
              (ctx', m') = WriteBits ctx m b n
          in unat (bits ctx') \<le> 16 \<and>
             (if 16 < nb
              then m' (pntr0 ctx) = ucast (drop_bit 16 acc) \<and>
                   m' (pntr0 ctx + 1) = ucast (drop_bit 24 acc) \<and>
                   (\<forall>a. a \<noteq> pntr0 ctx \<and> a \<noteq> pntr0 ctx + 1 \<longrightarrow> m' a = m a) \<and>
                   pntr0 ctx' = pntr1 ctx \<and> pntr1 ctx' = out ctx \<and> out ctx' = out ctx + 2 \<and>
                   mask_bs ctx' = push_bit 16 acc \<and> unat (bits ctx') = nb - 16
              else m' = m \<and>
                   pntr0 ctx' = pntr0 ctx \<and> pntr1 ctx' = pntr1 ctx \<and> out ctx' = out ctx \<and>
                   mask_bs ctx' = acc \<and> unat (bits ctx') = nb))"
proof -
  have s: "unat (bits ctx + n) = unat (bits ctx) + unat n"
    using assms by (simp add: unat_word_ariths)
  have w: "bits ctx \<le> 16" "n \<le> 16" "bits ctx + n \<noteq> 32"
    using assms s by (auto simp: word_le_nat_alt word_unat_eq_iff)
  have lt: "(16 < bits ctx + n) = (16 < unat (bits ctx) + unat n)"
    using s by (simp add: word_less_nat_alt)
  have sub: "16 < unat (bits ctx) + unat n \<Longrightarrow>
             unat (bits ctx + n - 16) = unat (bits ctx) + unat n - 16"
    using s by (simp add: unat_sub word_le_nat_alt)
  define acc where "acc = mask_bs ctx OR push_bit (32 - (unat (bits ctx) + unat n)) b"
  have b8: "ucast (drop_bit 8 (ucast (drop_bit 16 acc) :: 16 word)) =
            (ucast (drop_bit 24 acc) :: 8 word)"
    by (rule bit_word_eqI) (auto simp add: bit_simps)
  have b0: "ucast (ucast (drop_bit 16 acc) :: 16 word) = (ucast (drop_bit 16 acc) :: 8 word)"
    by (rule bit_word_eqI) (auto simp add: bit_simps)
  have r: "WriteBits ctx m b n =
     (if 16 < unat (bits ctx) + unat n
      then (ctx\<lparr>out := out ctx + 2, pntr0 := pntr1 ctx, pntr1 := out ctx,
                mask_bs := push_bit 16 acc, bits := bits ctx + n - 16\<rparr>,
            SET_UINT16_RAW m (pntr0 ctx) (ucast (drop_bit 16 acc)))
      else (ctx\<lparr>mask_bs := acc, bits := bits ctx + n\<rparr>, m))"
    unfolding WriteBits_below_32[OF w] Let_def lt s acc_def by (rule refl)
  show ?thesis
  proof (cases "16 < unat (bits ctx) + unat n")
    case True
    have "unat (bits ctx + n - 16) \<le> 16" using sub[OF True] assms by simp
    then show ?thesis
      unfolding Let_def acc_def[symmetric] r
      using True sub[OF True] by (simp add: SET_UINT16_RAW_def b8 b0)
  next
    case False
    then show ?thesis
      unfolding Let_def acc_def[symmetric] r
      using s by simp
  qed
qed

theorem WriteBits_spec_witness:
  "(let ctx = \<lparr>out = 4, pntr0 = 0, pntr1 = 2, mask_bs = 0x12340000, bits = 16\<rparr>;
        r = WriteBits ctx zeroed 0x5678 15
    in unat (bits ctx) \<le> 16 \<and> unat (15 :: 8 word) \<le> 16 \<and>
       unat (bits (fst r)) = 15 \<and> mask_bs (fst r) = 0xACF00000 \<and>
       snd r 0 = 0x34 \<and> snd r 1 = 0x12 \<and>
       pntr0 (fst r) = 2 \<and> pntr1 (fst r) = 4 \<and> out (fst r) = 6)"
  using WriteBits_spec[where ctx = "\<lparr>out = 4, pntr0 = 0, pntr1 = 2, mask_bs = 0x12340000, bits = 16\<rparr>"
          and n = 15 and b = "0x5678" and m = zeroed]
  by (simp add: Let_def split_beta)

lemma GET_SET_UINT16_RAW: "GET_UINT16_RAW (SET_UINT16_RAW m a v) a = v"
  unfolding GET_UINT16_RAW_def SET_UINT16_RAW_def
  by (rule bit_word_eqI) (auto simp add: bit_simps)

lemma GET_SET_UINT32_RAW: "GET_UINT32_RAW (SET_UINT32_RAW m a v) a = v"
  unfolding GET_UINT32_RAW_def SET_UINT32_RAW_def
proof (rule bit_word_eqI)
  fix n assume n: "n < LENGTH(32)"
  consider "n < 8" | "8 \<le> n" "n < 16" | "16 \<le> n" "n < 24" | "24 \<le> n" by linarith
  then show "bit (ucast ((m(a := ucast v, a + 1 := ucast (drop_bit 8 v),
                   a + 2 := ucast (drop_bit 16 v), a + 3 := ucast (drop_bit 24 v))) a) OR
               push_bit 8 (ucast ((m(a := ucast v, a + 1 := ucast (drop_bit 8 v),
                   a + 2 := ucast (drop_bit 16 v), a + 3 := ucast (drop_bit 24 v))) (a + 1))) OR
               push_bit 16 (ucast ((m(a := ucast v, a + 1 := ucast (drop_bit 8 v),
                   a + 2 := ucast (drop_bit 16 v), a + 3 := ucast (drop_bit 24 v))) (a + 2))) OR
               push_bit 24 (ucast ((m(a := ucast v, a + 1 := ucast (drop_bit 8 v),
                   a + 2 := ucast (drop_bit 16 v), a + 3 := ucast (drop_bit 24 v))) (a + 3))) :: 32 word) n
             = bit v n"
    using n by cases (simp_all add: bit_simps, linarith+)
qed

lemma SET_UINT16_RAW_frame: "a < p \<or> p + 2 \<le> a \<Longrightarrow> SET_UINT16_RAW m p v a = m a"
  by (auto simp: SET_UINT16_RAW_def)

lemma SET_UINT32_RAW_frame: "a < p \<or> p + 4 \<le> a \<Longrightarrow> SET_UINT32_RAW m p v a = m a"
  by (auto simp: SET_UINT32_RAW_def)

lemma WriteBits_flush:
  "16 < bits c + n \<Longrightarrow>
   WriteBits c m b n =
     (c\<lparr>out := out c + 2, pntr0 := pntr1 c, pntr1 := out c,
        mask_bs := push_bit 16 (mask_bs c OR push_bit (32 - unat (bits c + n)) b),
        bits := (bits c + n) AND 0xF\<rparr>,
      SET_UINT16_RAW m (pntr0 c)
        (ucast (drop_bit 16 (mask_bs c OR push_bit (32 - unat (bits c + n)) b))))"
  by (simp add: WriteBits_def Let_def)


text \<open>
  Claim C8: \<open>WriteRawByte\<close>, \<open>WriteRawUInt16\<close> and \<open>WriteRawUInt32\<close> store the value in
  little-endian order at the output cursor and change no other byte, advance the cursor by
  1, 2 and 4, and leave both slot pointers, the accumulator and the bit count unchanged.
  A \<open>WriteBits\<close> that follows and flushes therefore stores its 16 bits into the slot that
  was pending before the raw write, promotes the old next-pending slot, and reserves the
  new next-pending slot at the cursor behind the raw bytes; the flush after that one goes
  to the old next-pending slot.
\<close>

theorem WriteRaw_frame:
  fixes ctx :: OutputBitstream
  assumes "(c1, m1, k) = (fst (WriteRawByte ctx m x8), snd (WriteRawByte ctx m x8), 1) \<or>
           (c1, m1, k) = (fst (WriteRawUInt16 ctx m x16), snd (WriteRawUInt16 ctx m x16), 2) \<or>
           (c1, m1, k) = (fst (WriteRawUInt32 ctx m x32), snd (WriteRawUInt32 ctx m x32), 4)"
  shows "out c1 = out ctx + k \<and> pntr0 c1 = pntr0 ctx \<and> pntr1 c1 = pntr1 ctx \<and>
         mask_bs c1 = mask_bs ctx \<and> bits c1 = bits ctx \<and>
         (\<forall>a. a < out ctx \<or> out ctx + k \<le> a \<longrightarrow> m1 a = m a) \<and>
         snd (WriteRawByte ctx m x8) (out ctx) = x8 \<and>
         GET_UINT16_RAW (snd (WriteRawUInt16 ctx m x16)) (out ctx) = x16 \<and>
         GET_UINT32_RAW (snd (WriteRawUInt32 ctx m x32)) (out ctx) = x32 \<and>
         (16 < bits ctx + n \<longrightarrow>
            (let (c2, m2) = WriteBits c1 m1 b n
             in m2 = SET_UINT16_RAW m1 (pntr0 ctx)
                       (ucast (drop_bit 16 (mask_bs ctx OR push_bit (32 - unat (bits ctx + n)) b))) \<and>
                pntr0 c2 = pntr1 ctx \<and> pntr1 c2 = out ctx + k \<and> out c2 = out ctx + k + 2 \<and>
                (16 < bits c2 + n' \<longrightarrow>
                   snd (WriteBits c2 m2 b' n') =
                     SET_UINT16_RAW m2 (pntr1 ctx)
                       (ucast (drop_bit 16 (mask_bs c2 OR push_bit (32 - unat (bits c2 + n')) b'))))))"
proof -
  have frame: "out c1 = out ctx + k \<and> pntr0 c1 = pntr0 ctx \<and> pntr1 c1 = pntr1 ctx \<and>
         mask_bs c1 = mask_bs ctx \<and> bits c1 = bits ctx \<and>
         (\<forall>a. a < out ctx \<or> out ctx + k \<le> a \<longrightarrow> m1 a = m a)"
    using assms
    by (auto simp: WriteRawByte_def WriteRawUInt16_def WriteRawUInt32_def
          SET_UINT16_RAW_frame SET_UINT32_RAW_frame)
  have vals: "snd (WriteRawByte ctx m x8) (out ctx) = x8 \<and>
         GET_UINT16_RAW (snd (WriteRawUInt16 ctx m x16)) (out ctx) = x16 \<and>
         GET_UINT32_RAW (snd (WriteRawUInt32 ctx m x32)) (out ctx) = x32"
    by (simp add: WriteRawByte_def WriteRawUInt16_def WriteRawUInt32_def
          GET_SET_UINT16_RAW GET_SET_UINT32_RAW)
  have flush: "16 < bits ctx + n \<longrightarrow> (let (c2, m2) = WriteBits c1 m1 b n
             in m2 = SET_UINT16_RAW m1 (pntr0 ctx)
                       (ucast (drop_bit 16 (mask_bs ctx OR push_bit (32 - unat (bits ctx + n)) b))) \<and>
                pntr0 c2 = pntr1 ctx \<and> pntr1 c2 = out ctx + k \<and> out c2 = out ctx + k + 2 \<and>
                (16 < bits c2 + n' \<longrightarrow>
                   snd (WriteBits c2 m2 b' n') =
                     SET_UINT16_RAW m2 (pntr1 ctx)
                       (ucast (drop_bit 16 (mask_bs c2 OR push_bit (32 - unat (bits c2 + n')) b')))))"
  proof
    assume f: "16 < bits ctx + n"
    then have f1: "16 < bits c1 + n" using frame by simp
    show "(let (c2, m2) = WriteBits c1 m1 b n
             in m2 = SET_UINT16_RAW m1 (pntr0 ctx)
                       (ucast (drop_bit 16 (mask_bs ctx OR push_bit (32 - unat (bits ctx + n)) b))) \<and>
                pntr0 c2 = pntr1 ctx \<and> pntr1 c2 = out ctx + k \<and> out c2 = out ctx + k + 2 \<and>
                (16 < bits c2 + n' \<longrightarrow>
                   snd (WriteBits c2 m2 b' n') =
                     SET_UINT16_RAW m2 (pntr1 ctx)
                       (ucast (drop_bit 16 (mask_bs c2 OR push_bit (32 - unat (bits c2 + n')) b')))))"
      unfolding WriteBits_flush[OF f1]
      using frame by (auto simp: WriteBits_flush)
  qed
  show ?thesis using frame vals flush by blast
qed

theorem WriteRaw_frame_witness:
  "out (fst (WriteRawByte \<lparr>out = 4, pntr0 = 0, pntr1 = 2, mask_bs = 0x12340000, bits = 16\<rparr> zeroed 0x7F)) = 5 \<and>
   (let (c2, m2) = WriteBits (fst (WriteRawByte \<lparr>out = 4, pntr0 = 0, pntr1 = 2, mask_bs = 0x12340000, bits = 16\<rparr> zeroed 0x7F))
                     (snd (WriteRawByte \<lparr>out = 4, pntr0 = 0, pntr1 = 2, mask_bs = 0x12340000, bits = 16\<rparr> zeroed 0x7F)) 0xA 4
    in pntr0 c2 = 2 \<and> pntr1 c2 = 5 \<and> out c2 = 7 \<and> m2 0 = 0x34 \<and> m2 1 = 0x12 \<and> m2 4 = 0x7F)"
  using WriteRaw_frame[where ctx = "\<lparr>out = 4, pntr0 = 0, pntr1 = 2, mask_bs = 0x12340000, bits = 16\<rparr>"
      and m = zeroed and ?x8.0 = "0x7F" and ?x16.0 = 0 and ?x32.0 = 0 and k = 1 and n = 4 and b = "0xA" and n' = 0 and b' = 0
      and ?c1.0 = "fst (WriteRawByte \<lparr>out = 4, pntr0 = 0, pntr1 = 2, mask_bs = 0x12340000, bits = 16\<rparr> zeroed 0x7F)"
      and ?m1.0 = "snd (WriteRawByte \<lparr>out = 4, pntr0 = 0, pntr1 = 2, mask_bs = 0x12340000, bits = 16\<rparr> zeroed 0x7F)"]
  by (simp add: WriteRawByte_def SET_UINT16_RAW_def zeroed_def split: prod.splits)

subsection \<open>The match finder\<close>

lemma Find_loop_scan:
  "Find_loop ctx inp data n x len off =
     scan_best (cand_len ctx inp data) data (len, off) (Find_visited ctx inp data n x len)"
proof (induction n arbitrary: x len off)
  case 0 show ?case by simp
next
  case (Suc n)
  show ?case
  proof (cases x)
    case NULL then show ?thesis by simp
  next
    case (Ptr p)
    show ?thesis
      unfolding Ptr by (simp add: Suc cand_len_def Let_def)
  qed
qed

lemma scan_best_char:
  "scan_best cl data (len0, off0) vs = (len, off) \<Longrightarrow>
   (if \<forall>v \<in> set vs. cl v \<le> len0 then len = len0 \<and> off = off0
    else \<exists>i < length vs. len = cl (vs ! i) \<and> off = word_of_int (data - vs ! i) \<and> len0 < len \<and>
           (\<forall>j < i. cl (vs ! j) < len) \<and> (\<forall>j < length vs. cl (vs ! j) \<le> len))"
proof (induction vs arbitrary: len0 off0)
  case Nil then show ?case by simp
next
  case (Cons v vs)
  show ?case
  proof (cases "len0 < cl v")
    case True
    with Cons.prems have r: "scan_best cl data (cl v, word_of_int (data - v)) vs = (len, off)" by simp
    note ih = Cons.IH[OF r]
    show ?thesis
    proof (cases "\<forall>w \<in> set vs. cl w \<le> cl v")
      case all: True
      with ih have e: "len = cl v" "off = word_of_int (data - v)" by simp_all
      have "\<exists>i < length (v # vs). len = cl ((v # vs) ! i) \<and> off = word_of_int (data - (v # vs) ! i) \<and> len0 < len \<and>
           (\<forall>j < i. cl ((v # vs) ! j) < len) \<and> (\<forall>j < length (v # vs). cl ((v # vs) ! j) \<le> len)"
        using e True all by (intro exI[of _ 0]) (auto simp: nth_Cons')
      then show ?thesis using True by (auto simp: not_le)
    next
      case False
      with ih obtain i where i: "i < length vs" "len = cl (vs ! i)" "off = word_of_int (data - vs ! i)"
        "cl v < len" "\<forall>j < i. cl (vs ! j) < len" "\<forall>j < length vs. cl (vs ! j) \<le> len"
        by auto
      have "\<exists>i < length (v # vs). len = cl ((v # vs) ! i) \<and> off = word_of_int (data - (v # vs) ! i) \<and> len0 < len \<and>
           (\<forall>j < i. cl ((v # vs) ! j) < len) \<and> (\<forall>j < length (v # vs). cl ((v # vs) ! j) \<le> len)"
        using i True by (intro exI[of _ "Suc i"]) (auto simp: nth_Cons' less_Suc_eq_0_disj)
      then show ?thesis using True by (auto simp: not_le)
    qed
  next
    case nl: False
    with Cons.prems have r: "scan_best cl data (len0, off0) vs = (len, off)" by simp
    note ih = Cons.IH[OF r]
    show ?thesis
    proof (cases "\<forall>w \<in> set vs. cl w \<le> len0")
      case True
      with ih nl show ?thesis by (auto simp: not_less)
    next
      case False
      with ih obtain i where i: "i < length vs" "len = cl (vs ! i)" "off = word_of_int (data - vs ! i)"
        "len0 < len" "\<forall>j < i. cl (vs ! j) < len" "\<forall>j < length vs. cl (vs ! j) \<le> len"
        by auto
      have "\<exists>i < length (v # vs). len = cl ((v # vs) ! i) \<and> off = word_of_int (data - (v # vs) ! i) \<and> len0 < len \<and>
           (\<forall>j < i. cl ((v # vs) ! j) < len) \<and> (\<forall>j < length (v # vs). cl ((v # vs) ! j) \<le> len)"
        using i nl by (intro exI[of _ "Suc i"]) (auto simp: nth_Cons' less_Suc_eq_0_disj not_less)
      then show ?thesis using False by auto
    qed
  qed
qed

lemma Find_visited_length: "length (Find_visited ctx inp data n x len) \<le> n"
proof (induction n arbitrary: x len)
  case 0 show ?case by simp
next
  case (Suc n)
  show ?case by (cases x) (auto simp: Suc le_SucI)
qed

lemma Find_visited_near:
  "v \<in> set (Find_visited ctx inp data n x len) \<Longrightarrow> data - MAX_OFFSET \<le> v"
proof (induction n arbitrary: x len)
  case 0 then show ?case by simp
next
  case (Suc n)
  then show ?case by (cases x) (auto split: if_splits)
qed

lemma Find_visited_hd:
  "Find_visited ctx inp data n x len \<noteq> [] \<Longrightarrow> Ptr (hd (Find_visited ctx inp data n x len)) = x"
  by (cases n; cases x) (auto split: if_splits)

lemma Find_visited_chain:
  "Suc i < length (Find_visited ctx inp data n x len) \<Longrightarrow>
   Ptr (Find_visited ctx inp data n x len ! Suc i) =
     window ctx (WindowPos ctx (Find_visited ctx inp data n x len ! i))"
proof (induction n arbitrary: x len i)
  case 0 then show ?case by simp
next
  case (Suc n)
  show ?case
  proof (cases x)
    case NULL with Suc.prems show ?thesis by simp
  next
    case (Ptr p)
    show ?thesis
    proof (cases i)
      case 0
      with Suc.prems show ?thesis
        unfolding Ptr
        by (auto split: if_splits simp: hd_conv_nth[symmetric] Find_visited_hd)
    next
      case (Suc k)
      with Suc.prems Suc.IH[of k] show ?thesis
        unfolding Ptr by (auto split: if_splits)
    qed
  qed
qed

lemma Find_visited_nice:
  "len < NICE_LENGTH \<Longrightarrow> i < length (Find_visited ctx inp data n x len) \<Longrightarrow>
   NICE_LENGTH \<le> cand_len ctx inp data (Find_visited ctx inp data n x len ! i) \<Longrightarrow>
   Suc i = length (Find_visited ctx inp data n x len)"
proof (induction n arbitrary: x len i)
  case 0 then show ?case by simp
next
  case (Suc n)
  show ?case
  proof (cases x)
    case NULL with Suc.prems show ?thesis by simp
  next
    case (Ptr p)
    show ?thesis
    proof (cases i)
      case 0
      with Suc.prems show ?thesis
        unfolding Ptr by (auto split: if_splits)
    next
      case (Suc k)
      with Suc.prems Suc.IH[of _ k] show ?thesis
        unfolding Ptr by (auto split: if_splits simp: not_le)
    qed
  qed
qed


text \<open>
  Claim C5: \<open>Find\<close> walks the hash chain from \<open>window[WindowPos(data)]\<close> through
  \<open>window[WindowPos(x)]\<close>; the loop body runs on at most 11 chain entries, and only on
  entries whose distance from \<open>data\<close> is at most 65535.  The match returned is the first
  visited entry of maximal match length: the best match is replaced only by a strictly
  longer one, so of two entries with equal match length the one met earlier in the chain
  is kept.  An entry whose match length reaches 48 is the last one visited.  The return
  value is at least 2, and it is below 3 exactly when no visited entry matches in three or
  more bytes, in which case \<open>*offset\<close> is left as it was.  This holds for every dictionary
  state, so in particular for those produced by \<open>XpressDictionary_init\<close> and \<open>Fill\<close>.
\<close>

theorem Find_walks_chain:
  "(let vs = Find_visited ctx inp data MAX_CHAIN (window ctx (WindowPos ctx data)) 2;
        (len, off) = Find ctx inp data off0
    in length vs \<le> 11 \<and>
       (vs \<noteq> [] \<longrightarrow> Ptr (hd vs) = window ctx (WindowPos ctx data)) \<and>
       (\<forall>i. Suc i < length vs \<longrightarrow> Ptr (vs ! Suc i) = window ctx (WindowPos ctx (vs ! i))) \<and>
       (\<forall>v \<in> set vs. data - v \<le> 65535) \<and>
       (\<forall>i < length vs. 48 \<le> cand_len ctx inp data (vs ! i) \<longrightarrow> Suc i = length vs) \<and>
       2 \<le> len \<and>
       (len < 3) = (\<forall>v \<in> set vs. cand_len ctx inp data v < 3) \<and>
       (if \<forall>v \<in> set vs. cand_len ctx inp data v \<le> 2 then len = 2 \<and> off = off0
        else \<exists>i < length vs.
               len = cand_len ctx inp data (vs ! i) \<and> off = word_of_int (data - vs ! i) \<and>
               (\<forall>j < i. cand_len ctx inp data (vs ! j) < len) \<and>
               (\<forall>j < length vs. cand_len ctx inp data (vs ! j) \<le> len)))"
proof -
  define vs where "vs = Find_visited ctx inp data MAX_CHAIN (window ctx (WindowPos ctx data)) 2"
  obtain len off where f: "Find ctx inp data off0 = (len, off)" by (cases "Find ctx inp data off0")
  have s: "scan_best (cand_len ctx inp data) data (2, off0) vs = (len, off)"
    using f by (simp add: Find_def Find_loop_scan vs_def)
  note ch = scan_best_char[OF s]
  have p1: "length vs \<le> 11"
    using Find_visited_length[of ctx inp data MAX_CHAIN] by (simp add: vs_def MAX_CHAIN_def)
  have p2: "vs \<noteq> [] \<longrightarrow> Ptr (hd vs) = window ctx (WindowPos ctx data)"
    unfolding vs_def using Find_visited_hd by blast
  have p3: "\<forall>i. Suc i < length vs \<longrightarrow> Ptr (vs ! Suc i) = window ctx (WindowPos ctx (vs ! i))"
    unfolding vs_def using Find_visited_chain by blast
  have p4: "\<forall>v \<in> set vs. data - v \<le> 65535"
    unfolding vs_def using Find_visited_near[of _ ctx inp data] by (fastforce simp: MAX_OFFSET_def)
  have p5: "\<forall>i < length vs. 48 \<le> cand_len ctx inp data (vs ! i) \<longrightarrow> Suc i = length vs"
    unfolding vs_def
    using Find_visited_nice[of 2 _ ctx inp data MAX_CHAIN] by (simp add: NICE_LENGTH_def)
  have w3: "(x < 3) = (x \<le> 2)" for x :: "32 word"
    by (simp add: word_less_nat_alt word_le_nat_alt) linarith
  have p6: "2 \<le> len"
    using ch by (auto split: if_splits)
  have p7: "(len < 3) = (\<forall>v \<in> set vs. cand_len ctx inp data v < 3)"
    using ch unfolding w3 by (auto split: if_splits simp: not_le)
  have p8: "(if \<forall>v \<in> set vs. cand_len ctx inp data v \<le> 2 then len = 2 \<and> off = off0
        else \<exists>i < length vs.
               len = cand_len ctx inp data (vs ! i) \<and> off = word_of_int (data - vs ! i) \<and>
               (\<forall>j < i. cand_len ctx inp data (vs ! j) < len) \<and>
               (\<forall>j < length vs. cand_len ctx inp data (vs ! j) \<le> len))"
    using ch by (auto split: if_splits)
  show ?thesis
    unfolding Let_def f prod.case vs_def[symmetric]
    using p1 p2 p3 p4 p5 p6 p7 p8 by blast
qed


theorem Find_walks_chain_witness:
  "Find_visited (Fill (XpressDictionary_init cleared 0 6) (input_of [97, 97, 97, 97, 97, 97]) 0)
     (input_of [97, 97, 97, 97, 97, 97]) 2 MAX_CHAIN
     (window (Fill (XpressDictionary_init cleared 0 6) (input_of [97, 97, 97, 97, 97, 97]) 0)
        (WindowPos (Fill (XpressDictionary_init cleared 0 6) (input_of [97, 97, 97, 97, 97, 97]) 0) 2))
     2 = [1, 0] \<and>
   cand_len (Fill (XpressDictionary_init cleared 0 6) (input_of [97, 97, 97, 97, 97, 97]) 0)
     (input_of [97, 97, 97, 97, 97, 97]) 2 1 = 3 \<and>
   cand_len (Fill (XpressDictionary_init cleared 0 6) (input_of [97, 97, 97, 97, 97, 97]) 0)
     (input_of [97, 97, 97, 97, 97, 97]) 2 0 = 3 \<and>
   Find (Fill (XpressDictionary_init cleared 0 6) (input_of [97, 97, 97, 97, 97, 97]) 0)
     (input_of [97, 97, 97, 97, 97, 97]) 2 7 = (3, 1)"
proof -
  define I where "I = input_of [97, 97, 97, 97, 97, 97]"
  define C where "C = Fill (XpressDictionary_init cleared 0 6) I 0"
  have I: "I 0 = 97" "I 1 = 97" "I 2 = 97" "I 3 = 97" "I 4 = 97" "I 5 = 97"
    by (simp_all add: I_def input_of_def)
  have C: "window C 2 = Ptr 1" "window C 1 = Ptr 0" "window C 0 = NULL"
          "start C = 0" "end_d C = 6" "WindowMask C = 0x1FFFF"
    unfolding C_def Fill_def
    by (simp_all add: XpressDictionary_init_def Let_def CHUNK_SIZE_def HASH_BITS_def
          WindowPos_def HashUpdate_def I cleared_def Fill_loop.simps)
  have g: "GetMatchLength I 1 2 6 = 3" "GetMatchLength I 0 2 6 = 3"
    by (simp_all add: GetMatchLength_def I GetMatchLength_loop.simps)
  have p: "WindowPos C 2 = 2" "WindowPos C 1 = 1" "WindowPos C 0 = 0"
    by (simp_all add: WindowPos_def C)
  have cl: "cand_len C I 2 1 = 3" "cand_len C I 2 0 = 3"
    by (simp_all add: cand_len_def I g C)
  have vs: "Find_visited C I 2 MAX_CHAIN (window C (WindowPos C 2)) 2 = [1, 0]"
  proof -
    have mc: "MAX_CHAIN = Suc (Suc (Suc (Suc (Suc (Suc (Suc (Suc (Suc (Suc (Suc 0))))))))))"
      by (simp add: MAX_CHAIN_def)
    have C1: "window C (Suc 0) = Ptr 0" using C(2) by simp
    show ?thesis
      unfolding mc by (simp add: p C C1 cl MAX_OFFSET_def NICE_LENGTH_def)
  qed
  obtain len off where f: "Find C I 2 7 = (len, off)" by (cases "Find C I 2 7")
  note t = Find_walks_chain[of C I 2 7, unfolded Let_def f prod.case vs]
  have n: "\<not> (\<forall>v \<in> set [1, 0 :: int]. cand_len C I 2 v \<le> 2)"
    by (simp add: cl)
  from t n obtain i where i: "i < length [1, 0 :: int]" "len = cand_len C I 2 ([1, 0] ! i)"
      "off = word_of_int (2 - [1, 0] ! i)" "\<forall>j < i. cand_len C I 2 ([1, 0] ! j) < len"
    by (metis (no_types, lifting))
  have "i = 0"
  proof (rule ccontr)
    assume "i \<noteq> 0"
    then have "i = 1" using i(1) by simp
    then have "cand_len C I 2 ([1, 0] ! 0) < len" using i(4) by blast
    then show False using \<open>i = 1\<close> i(2) by (simp add: cl)
  qed
  with i have "len = 3 \<and> off = 1" by (simp add: cl)
  with f vs cl show ?thesis unfolding C_def I_def by simp
qed

subsection \<open>The literals-only encoder\<close>

lemma length_count_literals [simp]: "length (count_literals sc inp p n) = length sc"
  by (induction n arbitrary: sc p) auto

lemma in_bytes_Suc: "in_bytes inp p (Suc n) = inp p # in_bytes inp (p + 1) n"
proof -
  have "[0..<Suc n] = 0 # map Suc [0..<n]"
    by (simp add: upt_conv_Cons map_Suc_upt del: upt_Suc)
  then show ?thesis
    by (simp add: in_bytes_def comp_def add.commute add.left_commute del: upt_Suc)
qed

lemma in_bytes_0 [simp]: "in_bytes inp p 0 = []"
  by (simp add: in_bytes_def)

lemma in_bytes_add: "in_bytes inp p (a + b) = in_bytes inp p a @ in_bytes inp (p + int a) b"
proof (induction a arbitrary: p)
  case 0 show ?case by simp
next
  case (Suc a)
  show ?case using Suc[of "p+1"] by (simp add: in_bytes_Suc add.commute add.left_commute)
qed

lemma count_literals_nth:
  "s < length sc \<Longrightarrow> 256 \<le> length sc \<Longrightarrow>
   count_literals sc inp p n ! s =
     sc ! s + (if s < 256 then of_nat (count_list (in_bytes inp p n) (of_nat s)) else 0)"
proof (induction n arbitrary: sc p)
  case 0 then show ?case by simp
next
  case (Suc n)
  have u: "unat (inp p) < 256" using unsigned_less[of "inp p", where 'a=nat] by simp
  have e: "s < 256 \<Longrightarrow> (inp p = of_nat s) = (unat (inp p) = s)"
    by (auto simp: word_unat_eq_iff unat_of_nat)
  show ?case using Suc.prems u
    by (simp add: Suc.IH in_bytes_Suc nth_list_update e)
qed

lemma count_literals_add:
  "count_literals (count_literals sc inp p a) inp (p + int a) b = count_literals sc inp p (a + b)"
proof (induction a arbitrary: sc p)
  case 0 show ?case by simp
next
  case (Suc a)
  show ?case using Suc[of _ "p + 1"] by (simp add: add.commute add.left_commute)
qed

lemma lit_groups_0: "lit_groups m outp inp in_p 0 = m"
  by (rule ext) (auto simp add: lit_groups_def)

lemma lit_groups_step:
  assumes "r \<le> 32"
  shows "memcpy_in (SET_UINT32_RAW (lit_groups m outp inp in_p (36 * k)) (outp + 36 * k) 0)
           (outp + 36 * k + 4) inp (in_p + 32 * int k) r =
         lit_groups m outp inp in_p (36 * k + 4 + r)"
proof (rule ext)
  fix a
  consider "a < outp + 36 * k" | "outp + 36 * k \<le> a" "a < outp + 36 * k + 4"
    | "outp + 36 * k + 4 \<le> a" "a < outp + 36 * k + 4 + r" | "outp + 36 * k + 4 + r \<le> a"
    by linarith
  then show "memcpy_in (SET_UINT32_RAW (lit_groups m outp inp in_p (36 * k)) (outp + 36 * k) 0)
           (outp + 36 * k + 4) inp (in_p + 32 * int k) r a =
         lit_groups m outp inp in_p (36 * k + 4 + r) a"
  proof cases
    case 1
    then show ?thesis
      by (simp add: memcpy_in_def SET_UINT32_RAW_def lit_groups_def)
  next
    case 2
    then obtain i where i: "a = outp + 36 * k + i" "i < 4"
      by (metis add_less_cancel_left le_Suc_ex)
    have dm: "(36 * k + i) mod 36 = i" "(36 * k + i) div 36 = k" using i(2) by simp_all
    have z: "SET_UINT32_RAW (lit_groups m outp inp in_p (36 * k)) (outp + 36 * k) 0
               (outp + 36 * k + i) = 0"
      using i(2) by (auto simp: SET_UINT32_RAW_def)
    show ?thesis
      unfolding i(1) using i(2) z dm
      by (simp add: memcpy_in_def lit_groups_def add.assoc)
  next
    case 3
    then obtain i where i: "a = outp + 36 * k + 4 + i" "i < r"
      by (metis add_less_cancel_left le_Suc_ex)
    have dm: "(36 * k + (4 + i)) mod 36 = 4 + i" "(36 * k + (4 + i)) div 36 = k"
      using i(2) assms by simp_all
    show ?thesis
      unfolding i(1) using i(2) assms dm
      by (simp add: memcpy_in_def lit_groups_def add.assoc)
  next
    case 4
    then show ?thesis
      by (simp add: memcpy_in_def SET_UINT32_RAW_def lit_groups_def)
  qed
qed

lemma lit_groups_compose:
  "lit_groups (lit_groups m outp inp in_p (36 * j)) (outp + 36 * j) inp (in_p + 32 * int j) n =
   lit_groups m outp inp in_p (36 * j + n)"
proof (rule ext)
  fix a
  show "lit_groups (lit_groups m outp inp in_p (36 * j)) (outp + 36 * j) inp (in_p + 32 * int j) n a =
        lit_groups m outp inp in_p (36 * j + n) a"
  proof (cases "outp + 36 * j \<le> a")
    case False
    then show ?thesis by (simp add: lit_groups_def)
  next
    case True
    then obtain d where d: "a = outp + 36 * j + d" by (metis le_Suc_ex)
    have dm: "(36 * j + d) mod 36 = d mod 36" "(36 * j + d) div 36 = j + d div 36" by simp_all
    show ?thesis
      unfolding d by (simp add: lit_groups_def add.assoc dm algebra_simps)
  qed
qed

lemma no_matching_loop_mem:
  "\<exists>k. no_matching_loop inp in_p in_endx outp m sc =
         (in_p + 32 * int k, outp + 36 * k, lit_groups m outp inp in_p (36 * k),
          count_literals sc inp in_p (32 * k)) \<and>
       \<not> in_p + 32 * int k < in_endx \<and>
       (if k = 0 then \<not> in_p < in_endx else in_p + 32 * int k - 32 < in_endx)"
proof (induction inp in_p in_endx outp m sc rule: no_matching_loop.induct)
  case (1 inp in_p in_endx outp m sc)
  show ?case
  proof (cases "in_p < in_endx")
    case False
    then have "no_matching_loop inp in_p in_endx outp m sc = (in_p, outp, m, sc)"
      by (subst no_matching_loop.simps) simp
    with False show ?thesis
      by (intro exI[of _ 0]) (simp add: lit_groups_0)
  next
    case True
    define m' where "m' = memcpy_in (SET_UINT32_RAW m outp 0) (outp + 4) inp in_p 32"
    have m': "m' = lit_groups m outp inp in_p 36"
      using lit_groups_step[of 32 m outp inp in_p 0] by (simp add: m'_def lit_groups_0)
    from 1[OF True] obtain k where k:
      "no_matching_loop inp (in_p + 32) in_endx (outp + 36) m' (count_literals sc inp in_p 32) =
       (in_p + 32 + 32 * int k, outp + 36 + 36 * k,
        lit_groups m' (outp + 36) inp (in_p + 32) (36 * k),
        count_literals (count_literals sc inp in_p 32) inp (in_p + 32) (32 * k))"
      "\<not> in_p + 32 + 32 * int k < in_endx"
      "(if k = 0 then \<not> in_p + 32 < in_endx else in_p + 32 + 32 * int k - 32 < in_endx)"
      unfolding m'_def by blast
    have c: "count_literals (count_literals sc inp in_p 32) inp (in_p + 32) (32 * k) =
             count_literals sc inp in_p (32 * Suc k)"
      using count_literals_add[of sc inp in_p 32 "32 * k"] by simp
    have g: "lit_groups m' (outp + 36) inp (in_p + 32) (36 * k) =
             lit_groups m outp inp in_p (36 * Suc k)"
      unfolding m' using lit_groups_compose[of m outp inp in_p 1 "36 * k"] by simp
    have s: "no_matching_loop inp in_p in_endx outp m sc =
             no_matching_loop inp (in_p + 32) in_endx (outp + 36) m' (count_literals sc inp in_p 32)"
      unfolding m'_def using True by (subst no_matching_loop.simps) simp
    have e: "no_matching_loop inp in_p in_endx outp m sc =
       (in_p + 32 * int (Suc k), outp + 36 * Suc k, lit_groups m outp inp in_p (36 * Suc k),
        count_literals sc inp in_p (32 * Suc k))"
      unfolding s k(1) c g by simp
    have n: "\<not> in_p + 32 * int (Suc k) < in_endx" using k(2) by simp
    have l: "in_p + 32 * int (Suc k) - 32 < in_endx" using k(3) True by (simp split: if_splits)
    show ?thesis
      using e n l by (intro exI[of _ "Suc k"]) simp
  qed
qed

lemma no_matching_mem_shape:
  assumes "1 \<le> in_len"
  obtains k r where
    "no_matching_loop inp in_p (in_p + int in_len - 32) outp m (replicate SYMBOLS 0) =
       (in_p + 32 * int k, outp + 36 * k, lit_groups m outp inp in_p (36 * k),
        count_literals (replicate SYMBOLS 0) inp in_p (32 * k))"
    "in_len = 32 * k + r" "1 \<le> r" "r \<le> 32"
proof -
  from no_matching_loop_mem[of inp in_p "in_p + int in_len - 32" outp m "replicate SYMBOLS 0"]
  obtain k where k:
    "no_matching_loop inp in_p (in_p + int in_len - 32) outp m (replicate SYMBOLS 0) =
       (in_p + 32 * int k, outp + 36 * k, lit_groups m outp inp in_p (36 * k),
        count_literals (replicate SYMBOLS 0) inp in_p (32 * k))"
    "\<not> in_p + 32 * int k < in_p + int in_len - 32"
    "(if k = 0 then \<not> in_p < in_p + int in_len - 32
      else in_p + 32 * int k - 32 < in_p + int in_len - 32)"
    by blast
  have a: "32 * k < in_len" using k(3) assms by (auto split: if_splits)
  have b: "in_len - 32 * k \<le> 32" using k(2) by linarith
  show ?thesis
    by (rule that[OF k(1), of "in_len - 32 * k"]) (use a b in auto)
qed

text \<open>The buffer that \<open>xh_compress_no_matching\<close> leaves, in closed form.\<close>

lemma xh_compress_no_matching_mem:
  assumes len: "in_len = 32 * k + r" and r: "1 \<le> r" "r \<le> 32"
  shows "xh_compress_no_matching inp in_p in_len is_end outp m =
     (let L = lit_groups m outp inp in_p (36 * k + 4 + r);
          sc2 = count_literals (replicate SYMBOLS 0) inp in_p in_len
      in if is_end \<noteq> 0
         then (if r = 32
               then (36 * k + 4 + r + 7,
                     SET_UINT32_RAW (SET_UINT32_RAW L (outp + 36 * k + 36) 1) (outp + 36 * k + 40) 0,
                     sc2[STREAM_END := sc2 ! STREAM_END + 1])
               else (36 * k + 4 + r + 3,
                     SET_UINT32_RAW (SET_UINT32_RAW L (outp + 36 * k) (push_bit r 1))
                       (outp + 36 * k + 4 + r) 0,
                     sc2[STREAM_END := sc2 ! STREAM_END + 1]))
         else (36 * k + 4 + r, L, sc2))"
proof -
  have "1 \<le> in_len" using len r by simp
  from no_matching_mem_shape[OF this, of inp in_p outp m] obtain k' r' where k':
    "no_matching_loop inp in_p (in_p + int in_len - 32) outp m (replicate SYMBOLS 0) =
       (in_p + 32 * int k', outp + 36 * k', lit_groups m outp inp in_p (36 * k'),
        count_literals (replicate SYMBOLS 0) inp in_p (32 * k'))"
    "in_len = 32 * k' + r'" "1 \<le> r'" "r' \<le> 32"
    by metis
  have d1: "(in_len - 1) div 32 = k"
  proof -
    have "in_len - 1 = 32 * k + (r - 1)" using len r by simp
    then show ?thesis using r by simp
  qed
  have d2: "(in_len - 1) div 32 = k'"
  proof -
    have "in_len - 1 = 32 * k' + (r' - 1)" using k'(2,3) by simp
    then show ?thesis using k'(3,4) by simp
  qed
  have kk: "k' = k \<and> r' = r" using d1 d2 len k'(2) by simp
  note lp = k'(1)[unfolded conjunct1[OF kk]]
  have rem: "nat (in_p + int in_len - (in_p + 32 * int k)) = r"
    using len by simp
  have cnt: "count_literals (count_literals (replicate SYMBOLS 0) inp in_p (32 * k)) inp
               (in_p + 32 * int k) r = count_literals (replicate SYMBOLS 0) inp in_p in_len"
    using count_literals_add[of "replicate SYMBOLS 0" inp in_p "32 * k" r] len by simp
  note st = lit_groups_step[OF r(2), of m outp inp in_p k]
  have st': "memcpy_in (SET_UINT32_RAW (lit_groups m outp inp in_p (36 * k)) (outp + 36 * k) 0)
           (outp + 36 * k + 4) inp (in_p + 32 * int k) 32 =
         lit_groups m outp inp in_p (36 * k + 4 + 32)"
    using lit_groups_step[of 32 m outp inp in_p k] by simp
  have sub: "outp + 36 * k + 4 + r - r - 4 = outp + 36 * k" by simp
  have e1: "outp + 36 * k + 4 + 32 = outp + 36 * k + 36"
    and e2: "outp + 36 * k + 36 + 4 = outp + 36 * k + 40"
    and e3: "outp + 36 * k + 40 + 3 - outp = 36 * k + 4 + 32 + 7"
    and e4: "outp + 36 * k + 4 + r + 3 - outp = 36 * k + 4 + r + 3"
    and e5: "outp + 36 * k + 4 + r - outp = 36 * k + 4 + r"
    by simp_all
  show ?thesis
  proof (cases "is_end = 0")
    case True
    show ?thesis
      unfolding xh_compress_no_matching_def Let_def lp prod.case rem cnt st e5
      using True by (simp only: if_False if_True not_True_eq_False simp_thms e5)
  next
    case False
    show ?thesis
    proof (cases "r = 32")
      case r32: True
      show ?thesis
        unfolding xh_compress_no_matching_def Let_def lp prod.case rem cnt st
        unfolding r32 e1 e2
        using False by (simp only: if_False if_True simp_thms prod.case e3)
    next
      case r32: False
      show ?thesis
        unfolding xh_compress_no_matching_def Let_def lp prod.case rem cnt st sub e4
        using False r32 by (simp only: if_False if_True simp_thms prod.case e4)
    qed
  qed
qed

lemma lit_groups_frame: "a < outp \<or> outp + n \<le> a \<Longrightarrow> lit_groups m outp inp in_p n a = m a"
  by (auto simp: lit_groups_def)

lemma lit_groups_lit:
  assumes "36 * (i div 32) + 4 + i mod 32 < n"
  shows "lit_groups m outp inp in_p n (outp + 36 * (i div 32) + 4 + i mod 32) = inp (in_p + int i)"
proof -
  have lt: "4 + i mod 32 < 36" by simp
  have dm: "(36 * (i div 32) + (4 + i mod 32)) mod 36 = 4 + i mod 32"
           "(36 * (i div 32) + (4 + i mod 32)) div 36 = i div 32"
    using lt by simp_all
  have i: "32 * (i div 32) + i mod 32 = i" by simp
  show ?thesis
    using assms by (simp add: lit_groups_def add.assoc dm i)
qed

lemma lit_groups_mask:
  assumes "36 * g + j < n" "j < 4"
  shows "lit_groups m outp inp in_p n (outp + 36 * g + j) = 0"
proof -
  have dm: "(36 * g + j) mod 36 = j" using assms(2) by simp
  show ?thesis using assms by (simp add: lit_groups_def add.assoc dm)
qed

lemma GET_UINT32_RAW_zero:
  "m x = 0 \<Longrightarrow> m (x + 1) = 0 \<Longrightarrow> m (x + 2) = 0 \<Longrightarrow> m (x + 3) = 0 \<Longrightarrow> GET_UINT32_RAW m x = 0"
  by (simp add: GET_UINT32_RAW_def)

lemma GET_UINT32_RAW_other:
  "x + 4 \<le> y \<or> y + 4 \<le> x \<Longrightarrow> GET_UINT32_RAW (SET_UINT32_RAW m y v) x = GET_UINT32_RAW m x"
  by (auto simp: GET_UINT32_RAW_def SET_UINT32_RAW_def)

lemma GET_UINT32_RAW_lit_groups:
  assumes "36 * g + 4 \<le> n"
  shows "GET_UINT32_RAW (lit_groups m outp inp in_p n) (outp + 36 * g) = 0"
proof (rule GET_UINT32_RAW_zero)
  show "lit_groups m outp inp in_p n (outp + 36 * g) = 0"
    using lit_groups_mask[of g 0 n m outp inp in_p] assms by simp
  show "lit_groups m outp inp in_p n (outp + 36 * g + 1) = 0"
    using lit_groups_mask[of g 1 n m outp inp in_p] assms by simp
  show "lit_groups m outp inp in_p n (outp + 36 * g + 2) = 0"
    using lit_groups_mask[of g 2 n m outp inp in_p] assms by simp
  show "lit_groups m outp inp in_p n (outp + 36 * g + 3) = 0"
    using lit_groups_mask[of g 3 n m outp inp in_p] assms by simp
qed

text \<open>
  Claim C9, as stated, fails when \<open>is_end\<close> is set: the end-of-stream item is stored as a
  four-byte zero word while the cursor advances by three, so the encoder stores one byte
  more than the count it returns.  For the three input bytes \<open>65, 66, 65\<close> it returns 10
  and the byte at offset 10, the eleventh, is overwritten with 0.
\<close>

theorem xh_compress_no_matching_stores_past_count:
  "fst (xh_compress_no_matching (input_of [65, 66, 65]) 0 3 1 0 (zeroed(10 := 255))) = 10 \<and>
   fst (snd (xh_compress_no_matching (input_of [65, 66, 65]) 0 3 1 0 (zeroed(10 := 255)))) 10 = 0 \<and>
   (zeroed(10 := 255)) 10 = (255 :: 8 word)"
  by (simp add: xh_compress_no_matching_def no_matching_loop.simps Let_def SET_UINT32_RAW_def
        memcpy_in_def)

text \<open>
  Claim C9, amended: for an input slice of \<open>in_len \<ge> 1\<close> bytes \<open>xh_compress_no_matching\<close>
  returns \<open>N = in_len + 4 * ceil(in_len / 32)\<close> when \<open>is_end\<close> is 0, three more when
  \<open>is_end\<close> is set and a further four when in addition \<open>in_len\<close> is a multiple of 32.  It
  stores to the \<open>N\<close> bytes from \<open>out\<close> on, and when \<open>is_end\<close> is set also to the byte
  after them; every other byte of the buffer keeps its value.  The stored bytes are: literal
  \<open>i\<close> at offset \<open>36 * (i div 32) + 4 + i mod 32\<close>; a mask word at the start of each
  group of 36 bytes, which is 0 except that with \<open>is_end\<close> set and \<open>in_len\<close> not a multiple
  of 32 the mask of the last group is \<open>1 << (in_len mod 32)\<close>; with \<open>is_end\<close> set and
  \<open>in_len\<close> a multiple of 32 an additional mask word 1; and with \<open>is_end\<close> set a zero word
  at offset \<open>N - 3\<close>, whose last byte lies past the returned count.  The histogram has
  \<open>SYMBOLS\<close> entries; the entry of a literal is incremented once per occurrence of that
  byte in the slice, the entry of symbol 256 once when \<open>is_end\<close> is set, and no other entry
  is incremented.
\<close>

theorem xh_compress_no_matching_buffer_and_counts:
  assumes "1 \<le> in_len"
  shows "\<exists>N m' sc.
     xh_compress_no_matching inp in_p in_len is_end outp m = (N, m', sc) \<and>
     N = in_len + 4 * ((in_len + 31) div 32) +
         (if is_end \<noteq> 0 then 3 + (if in_len mod 32 = 0 then 4 else 0) else 0) \<and>
     (\<forall>a. a < outp \<or> outp + N + (if is_end \<noteq> 0 then 1 else 0) \<le> a \<longrightarrow> m' a = m a) \<and>
     (\<forall>i < in_len. m' (outp + 36 * (i div 32) + 4 + i mod 32) = inp (in_p + int i)) \<and>
     (\<forall>g < (in_len + 31) div 32.
        GET_UINT32_RAW m' (outp + 36 * g) =
          (if is_end \<noteq> 0 \<and> in_len mod 32 \<noteq> 0 \<and> g = in_len div 32
           then push_bit (in_len mod 32) 1 else 0)) \<and>
     (is_end \<noteq> 0 \<longrightarrow>
        (in_len mod 32 = 0 \<longrightarrow> GET_UINT32_RAW m' (outp + N - 7) = 1) \<and>
        GET_UINT32_RAW m' (outp + N - 3) = 0) \<and>
     length sc = SYMBOLS \<and>
     (\<forall>s < SYMBOLS.
        sc ! s =
          (if s < 256 then word_of_nat (count_list (in_bytes inp in_p in_len) (word_of_nat s))
           else 0) +
          (if s = STREAM_END \<and> is_end \<noteq> 0 then 1 else 0))"
proof -
  define k where "k = (in_len - 1) div 32"
  define r where "r = in_len - 32 * k"
  have km: "in_len - 1 = 32 * k + (in_len - 1) mod 32" by (simp add: k_def)
  have kl: "(in_len - 1) mod 32 < 32" by simp
  have len: "in_len = 32 * k + r" and r: "1 \<le> r" "r \<le> 32"
    using assms km kl unfolding r_def by linarith+
  define L where "L = lit_groups m outp inp in_p (36 * k + 4 + r)"
  define sc2 where "sc2 = count_literals (replicate SYMBOLS 0) inp in_p in_len"
  note cf = xh_compress_no_matching_mem[OF len r, of inp in_p is_end outp m,
              unfolded Let_def, folded L_def sc2_def]
  have d: "(in_len + 31) div 32 = k + 1" using len r by simp
  have md: "(in_len mod 32 = 0) = (r = 32)"
  proof -
    have "in_len mod 32 = r mod 32" using len by simp
    then show ?thesis using r by (cases "r = 32") auto
  qed
  have dv: "r < 32 \<Longrightarrow> in_len div 32 = k \<and> in_len mod 32 = r" using len by simp
  have l2: "length sc2 = SYMBOLS" by (simp add: sc2_def)
  have nth: "s < SYMBOLS \<Longrightarrow>
     sc2 ! s =
       (if s < 256 then word_of_nat (count_list (in_bytes inp in_p in_len) (word_of_nat s)) else 0)"
    for s
    using count_literals_nth[of s "replicate SYMBOLS 0" inp in_p in_len]
    by (simp add: SYMBOLS_def sc2_def)
  have h0: "\<forall>s < SYMBOLS. sc2 ! s =
          (if s < 256 then word_of_nat (count_list (in_bytes inp in_p in_len) (word_of_nat s))
           else 0) + (if s = STREAM_END \<and> (0 :: int) \<noteq> 0 then 1 else 0)"
    using nth by simp
  have h1: "\<forall>s < SYMBOLS. sc2[STREAM_END := sc2 ! STREAM_END + 1] ! s =
          (if s < 256 then word_of_nat (count_list (in_bytes inp in_p in_len) (word_of_nat s))
           else 0) + (if s = STREAM_END then 1 else 0)"
    using nth l2 nth[of STREAM_END]
    by (simp add: nth_list_update STREAM_END_def SYMBOLS_def)
  have lpos: "36 * (i div 32) + 4 + i mod 32 < 36 * k + 4 + r \<and>
              (i div 32 < k \<or> i div 32 = k \<and> i mod 32 < r)" if "i < in_len" for i
  proof -
    have i: "i = 32 * (i div 32) + i mod 32" by simp
    have t: "i mod 32 < 32" by simp
    show ?thesis
    proof (cases "i div 32 < k")
      case True
      then show ?thesis using t by linarith
    next
      case False
      have "i div 32 = k \<and> i mod 32 < r" using False that len r i t by linarith
      then show ?thesis by simp
    qed
  qed
  have Llit: "L (outp + 36 * (i div 32) + 4 + i mod 32) = inp (in_p + int i)" if "i < in_len" for i
    unfolding L_def using lit_groups_lit lpos[OF that] by blast
  have Lmask: "GET_UINT32_RAW L (outp + 36 * g) = 0" if "g \<le> k" for g
    unfolding L_def using GET_UINT32_RAW_lit_groups[of g "36 * k + 4 + r"] that by simp
  have Lframe: "L a = m a" if "a < outp \<or> outp + (36 * k + 4 + r) \<le> a" for a
    unfolding L_def using lit_groups_frame that by blast
  have N0: "36 * k + 4 + r = in_len + 4 * ((in_len + 31) div 32)" using len d by simp
  show ?thesis
  proof (cases "is_end = 0")
    case True
    have res: "xh_compress_no_matching inp in_p in_len is_end outp m = (36 * k + 4 + r, L, sc2)"
      using cf True by simp
    show ?thesis
      apply (rule exI[of _ "36 * k + 4 + r"], rule exI[of _ L], rule exI[of _ sc2])
      using res True N0 Llit Lmask Lframe l2 nth d by simp
  next
    case False
    show ?thesis
    proof (cases "r = 32")
      case r32: True
      define m' where "m' = SET_UINT32_RAW (SET_UINT32_RAW L (outp + 36 * k + 36) 1) (outp + 36 * k + 40) 0"
      have res: "xh_compress_no_matching inp in_p in_len is_end outp m =
                   (36 * k + 4 + r + 7, m', sc2[STREAM_END := sc2 ! STREAM_END + 1])"
        using cf False r32 by (simp add: m'_def)
      have fr: "m' a = m a" if "a < outp \<or> outp + (36 * k + 4 + r + 7) + 1 \<le> a" for a
        unfolding m'_def using that r32 Lframe[of a] by (auto simp: SET_UINT32_RAW_frame)
      have lit: "m' (outp + 36 * (i div 32) + 4 + i mod 32) = inp (in_p + int i)" if "i < in_len" for i
      proof -
        have "m' (outp + 36 * (i div 32) + 4 + i mod 32) = L (outp + 36 * (i div 32) + 4 + i mod 32)"
          unfolding m'_def using lpos[OF that] r32 by (simp add: SET_UINT32_RAW_frame)
        then show ?thesis using Llit[OF that] by simp
      qed
      have mk: "GET_UINT32_RAW m' (outp + 36 * g) = 0" if "g \<le> k" for g
      proof -
        have "GET_UINT32_RAW m' (outp + 36 * g) = GET_UINT32_RAW L (outp + 36 * g)"
          unfolding m'_def using that by (simp add: GET_UINT32_RAW_other)
        then show ?thesis using Lmask[OF that] by simp
      qed
      have e1: "GET_UINT32_RAW m' (outp + 36 * k + 36) = 1"
        unfolding m'_def by (simp add: GET_UINT32_RAW_other GET_SET_UINT32_RAW)
      have e2: "GET_UINT32_RAW m' (outp + 36 * k + 40) = 0"
        unfolding m'_def by (simp add: GET_SET_UINT32_RAW)
      have a1: "outp + (36 * k + 4 + r + 7) - 7 = outp + 36 * k + 36"
        and a2: "outp + (36 * k + 4 + r + 7) - 3 = outp + 36 * k + 40"
        using r32 by simp_all
      have Nf: "36 * k + 4 + r + 7 = in_len + 4 * ((in_len + 31) div 32) +
         (if is_end \<noteq> 0 then 3 + (if in_len mod 32 = 0 then 4 else 0) else 0)"
        using N0 False md r32 by simp
      have c1: "\<forall>a. a < outp \<or> outp + (36 * k + 4 + r + 7) + (if is_end \<noteq> 0 then 1 else 0) \<le> a \<longrightarrow> m' a = m a"
        using fr False by simp
      have c2: "\<forall>i < in_len. m' (outp + 36 * (i div 32) + 4 + i mod 32) = inp (in_p + int i)"
        using lit by blast
      have c3: "\<forall>g < (in_len + 31) div 32.
        GET_UINT32_RAW m' (outp + 36 * g) =
          (if is_end \<noteq> 0 \<and> in_len mod 32 \<noteq> 0 \<and> g = in_len div 32
           then push_bit (in_len mod 32) 1 else 0)"
        using mk d md r32 by simp
      have c4: "is_end \<noteq> 0 \<longrightarrow>
        (in_len mod 32 = 0 \<longrightarrow> GET_UINT32_RAW m' (outp + (36 * k + 4 + r + 7) - 7) = 1) \<and>
        GET_UINT32_RAW m' (outp + (36 * k + 4 + r + 7) - 3) = 0"
        unfolding a1 a2 using e1 e2 by simp
      have c5: "length (sc2[STREAM_END := sc2 ! STREAM_END + 1]) = SYMBOLS" using l2 by simp
      have c6: "\<forall>s < SYMBOLS. sc2[STREAM_END := sc2 ! STREAM_END + 1] ! s =
          (if s < 256 then word_of_nat (count_list (in_bytes inp in_p in_len) (word_of_nat s))
           else 0) + (if s = STREAM_END \<and> is_end \<noteq> 0 then 1 else 0)"
        using h1 False by simp
      show ?thesis
        apply (rule exI[of _ "36 * k + 4 + r + 7"], rule exI[of _ m'],
               rule exI[of _ "sc2[STREAM_END := sc2 ! STREAM_END + 1]"])
        using res Nf c1 c2 c3 c4 c5 c6 by blast
    next
      case r32: False
      then have rlt: "r < 32" using r by simp
      define m' where "m' = SET_UINT32_RAW (SET_UINT32_RAW L (outp + 36 * k) (push_bit r 1))
                       (outp + 36 * k + 4 + r) 0"
      have res: "xh_compress_no_matching inp in_p in_len is_end outp m =
                   (36 * k + 4 + r + 3, m', sc2[STREAM_END := sc2 ! STREAM_END + 1])"
        using cf False r32 by (simp add: m'_def)
      have fr: "m' a = m a" if "a < outp \<or> outp + (36 * k + 4 + r + 3) + 1 \<le> a" for a
        unfolding m'_def using that Lframe[of a] by (auto simp: SET_UINT32_RAW_frame)
      have lit: "m' (outp + 36 * (i div 32) + 4 + i mod 32) = inp (in_p + int i)" if "i < in_len" for i
      proof -
        have t: "i mod 32 < 32" by simp
        have p1: "outp + 36 * (i div 32) + 4 + i mod 32 < outp + 36 * k \<or>
                  outp + 36 * k + 4 \<le> outp + 36 * (i div 32) + 4 + i mod 32"
          using lpos[OF that] t by linarith
        have p2: "outp + 36 * (i div 32) + 4 + i mod 32 < outp + 36 * k + 4 + r"
          using lpos[OF that] by linarith
        have "m' (outp + 36 * (i div 32) + 4 + i mod 32) = L (outp + 36 * (i div 32) + 4 + i mod 32)"
          unfolding m'_def
          using SET_UINT32_RAW_frame[OF p1, of L "push_bit r 1"]
            SET_UINT32_RAW_frame[of "outp + 36 * (i div 32) + 4 + i mod 32" "outp + 36 * k + 4 + r"
              "SET_UINT32_RAW L (outp + 36 * k) (push_bit r 1)" 0] p2
          by simp
        then show ?thesis using Llit[OF that] by simp
      qed
      have mk: "GET_UINT32_RAW m' (outp + 36 * g) = (if g = k then push_bit r 1 else 0)" if "g \<le> k" for g
      proof (cases "g = k")
        case True
        show ?thesis
          unfolding m'_def True by (simp add: GET_UINT32_RAW_other GET_SET_UINT32_RAW)
      next
        case False
        then have "g < k" using that by simp
        then have "GET_UINT32_RAW m' (outp + 36 * g) = GET_UINT32_RAW L (outp + 36 * g)"
          unfolding m'_def by (simp add: GET_UINT32_RAW_other)
        then show ?thesis using Lmask[OF that] False by simp
      qed
      have e2: "GET_UINT32_RAW m' (outp + 36 * k + 4 + r) = 0"
        unfolding m'_def by (simp add: GET_SET_UINT32_RAW)
      have a2: "outp + (36 * k + 4 + r + 3) - 3 = outp + 36 * k + 4 + r" by simp
      have nz: "in_len mod 32 \<noteq> 0" using md r32 by simp
      have Nf: "36 * k + 4 + r + 3 = in_len + 4 * ((in_len + 31) div 32) +
         (if is_end \<noteq> 0 then 3 + (if in_len mod 32 = 0 then 4 else 0) else 0)"
        using N0 False nz by simp
      have c1: "\<forall>a. a < outp \<or> outp + (36 * k + 4 + r + 3) + (if is_end \<noteq> 0 then 1 else 0) \<le> a \<longrightarrow> m' a = m a"
        using fr False by simp
      have c2: "\<forall>i < in_len. m' (outp + 36 * (i div 32) + 4 + i mod 32) = inp (in_p + int i)"
        using lit by blast
      have c3: "\<forall>g < (in_len + 31) div 32.
        GET_UINT32_RAW m' (outp + 36 * g) =
          (if is_end \<noteq> 0 \<and> in_len mod 32 \<noteq> 0 \<and> g = in_len div 32
           then push_bit (in_len mod 32) 1 else 0)"
        using mk d nz dv[OF rlt] False by simp
      have c4: "is_end \<noteq> 0 \<longrightarrow>
        (in_len mod 32 = 0 \<longrightarrow> GET_UINT32_RAW m' (outp + (36 * k + 4 + r + 3) - 7) = 1) \<and>
        GET_UINT32_RAW m' (outp + (36 * k + 4 + r + 3) - 3) = 0"
        unfolding a2 using e2 nz by simp
      have c5: "length (sc2[STREAM_END := sc2 ! STREAM_END + 1]) = SYMBOLS" using l2 by simp
      have c6: "\<forall>s < SYMBOLS. sc2[STREAM_END := sc2 ! STREAM_END + 1] ! s =
          (if s < 256 then word_of_nat (count_list (in_bytes inp in_p in_len) (word_of_nat s))
           else 0) + (if s = STREAM_END \<and> is_end \<noteq> 0 then 1 else 0)"
        using h1 False by simp
      show ?thesis
        apply (rule exI[of _ "36 * k + 4 + r + 3"], rule exI[of _ m'],
               rule exI[of _ "sc2[STREAM_END := sc2 ! STREAM_END + 1]"])
        using res Nf c1 c2 c3 c4 c5 c6 by blast
    qed
  qed
qed

theorem xh_compress_no_matching_witness:
  "1 \<le> (3 :: nat) \<and>
   fst (xh_compress_no_matching (input_of [65, 66, 65]) 0 3 1 0 (zeroed(11 := 255))) = 10 \<and>
   fst (snd (xh_compress_no_matching (input_of [65, 66, 65]) 0 3 1 0 (zeroed(11 := 255)))) 5 = 66 \<and>
   GET_UINT32_RAW
     (fst (snd (xh_compress_no_matching (input_of [65, 66, 65]) 0 3 1 0 (zeroed(11 := 255))))) 0 = 8 \<and>
   GET_UINT32_RAW
     (fst (snd (xh_compress_no_matching (input_of [65, 66, 65]) 0 3 1 0 (zeroed(11 := 255))))) 7 = 0 \<and>
   fst (snd (xh_compress_no_matching (input_of [65, 66, 65]) 0 3 1 0 (zeroed(11 := 255)))) 11 = 255 \<and>
   snd (snd (xh_compress_no_matching (input_of [65, 66, 65]) 0 3 1 0 (zeroed(11 := 255)))) ! 65 = 2 \<and>
   snd (snd (xh_compress_no_matching (input_of [65, 66, 65]) 0 3 1 0 (zeroed(11 := 255)))) ! 256 = 1"
proof -
  have h: "1 \<le> (3 :: nat)" by simp
  from xh_compress_no_matching_buffer_and_counts[OF h, of "input_of [65, 66, 65]" 0 1 0
         "zeroed(11 := 255)"]
  obtain N m' sc where
    res: "xh_compress_no_matching (input_of [65, 66, 65]) 0 3 1 0 (zeroed(11 := 255)) = (N, m', sc)"
    and N: "N = 3 + 4 * ((3 + 31) div 32) +
              (if (1 :: int) \<noteq> 0 then 3 + (if (3 :: nat) mod 32 = 0 then 4 else 0) else 0)"
    and fr: "\<forall>a. a < 0 \<or> 0 + N + (if (1 :: int) \<noteq> 0 then 1 else 0) \<le> a \<longrightarrow>
                 m' a = (zeroed(11 := 255)) a"
    and lit: "\<forall>i < 3. m' (0 + 36 * (i div 32) + 4 + i mod 32) = input_of [65, 66, 65] (0 + int i)"
    and mk: "\<forall>g < (3 + 31) div 32.
        GET_UINT32_RAW m' (0 + 36 * g) =
          (if (1 :: int) \<noteq> 0 \<and> (3 :: nat) mod 32 \<noteq> 0 \<and> g = 3 div 32
           then push_bit (3 mod 32) 1 else 0)"
    and en: "(1 :: int) \<noteq> 0 \<longrightarrow>
        ((3 :: nat) mod 32 = 0 \<longrightarrow> GET_UINT32_RAW m' (0 + N - 7) = 1) \<and>
        GET_UINT32_RAW m' (0 + N - 3) = 0"
    and sc: "\<forall>s < SYMBOLS.
        sc ! s =
          (if s < 256 then word_of_nat (count_list (in_bytes (input_of [65, 66, 65]) 0 3) (word_of_nat s))
           else 0) +
          (if s = STREAM_END \<and> (1 :: int) \<noteq> 0 then 1 else 0)"
    by (elim exE conjE) (rule that, assumption+)
  have b: "in_bytes (input_of [65, 66, 65]) 0 3 = [65, 66, 65]"
    by (simp add: in_bytes_def input_of_def upt_rec)
  have n: "N = 10" using N by simp
  have c5: "m' 5 = 66" using lit[rule_format, of 1] by (simp add: input_of_def)
  have g0: "GET_UINT32_RAW m' 0 = 8" using mk[rule_format, of 0] by simp
  have g7: "GET_UINT32_RAW m' 7 = 0" using en n by simp
  have f11: "m' 11 = 255" using fr[rule_format, of 11] n by simp
  have s65: "sc ! 65 = 2" using sc[rule_format, of 65] by (simp add: SYMBOLS_def STREAM_END_def b)
  have s256: "sc ! 256 = 1" using sc[rule_format, of 256] by (simp add: SYMBOLS_def STREAM_END_def b)
  show ?thesis unfolding res using h n c5 g0 g7 f11 s65 s256 by simp
qed

subsection \<open>Sorting\<close>

lemma insertion_shift_spec:
  "j < length syms \<Longrightarrow>
   (case insertion_shift syms c cond j of (syms', j') \<Rightarrow>
      j' \<le> j \<and> length syms' = length syms \<and>
      syms'[j' := x] = take j' syms @ [x] @ take (j - j') (drop j' syms) @ drop (Suc j) syms \<and>
      (\<forall>y \<in> set (take (j - j') (drop j' syms)). cond < c ! y) \<and>
      (0 < j' \<longrightarrow> \<not> cond < c ! (syms ! (j' - 1))))"
proof (induction j arbitrary: syms)
  case 0
  then show ?case by (cases syms) simp_all
next
  case (Suc j)
  show ?case
  proof (cases "cond < c ! (syms ! j)")
    case False
    have "syms[Suc j := x] = take (Suc j) syms @ [x] @ drop (Suc (Suc j)) syms"
      using Suc.prems by (simp add: upd_conv_take_nth_drop)
    with False show ?thesis by simp
  next
    case True
    define syms2 where "syms2 = syms[Suc j := syms ! j]"
    have l2: "j < length syms2" using Suc.prems by (simp add: syms2_def)
    obtain syms' j' where r: "insertion_shift syms2 c cond j = (syms', j')"
      by (cases "insertion_shift syms2 c cond j")
    from Suc.IH[OF l2] r have ih:
      "j' \<le> j" "length syms' = length syms2"
      "syms'[j' := x] = take j' syms2 @ [x] @ take (j - j') (drop j' syms2) @ drop (Suc j) syms2"
      "\<forall>y \<in> set (take (j - j') (drop j' syms2)). cond < c ! y"
      "0 < j' \<longrightarrow> \<not> cond < c ! (syms2 ! (j' - 1))"
      by simp_all
    have a: "take j' syms2 = take j' syms" using ih(1) by (simp add: syms2_def)
    have b: "take (j - j') (drop j' syms2) = take (j - j') (drop j' syms)"
      using ih(1) Suc.prems by (simp add: syms2_def drop_update_swap take_update_cancel)
    have d: "drop (Suc j) syms2 = syms ! j # drop (Suc (Suc j)) syms"
      using Suc.prems by (simp add: syms2_def drop_update_cancel[symmetric] Cons_nth_drop_Suc[symmetric] del: drop_update_cancel)
         (metis Cons_nth_drop_Suc drop_update_cancel length_list_update lessI nth_list_update_eq)
    have e: "take (Suc j - j') (drop j' syms) = take (j - j') (drop j' syms) @ [syms ! j]"
      using ih(1) Suc.prems
      by (simp add: Suc_diff_le take_Suc_conv_app_nth)
    have f: "0 < j' \<longrightarrow> syms2 ! (j' - 1) = syms ! (j' - 1)"
      using ih(1) by (simp add: syms2_def)
    show ?thesis
      using True r ih a b d e f
      by (simp add: syms2_def[symmetric]) (auto simp: syms2_def)
  qed
qed


lemma insertion_step:
  assumes "i < len" "len \<le> length syms" "sorted (map (\<lambda>s. c ! s) (take i syms))"
    and r: "insertion_shift syms c (c ! (syms ! i)) i = (syms1, j)"
  defines "new \<equiv> syms1[j := syms ! i]"
  shows "length new = length syms" "drop (Suc i) new = drop (Suc i) syms"
    "sorted (map (\<lambda>s. c ! s) (take (Suc i) new))"
    "mset (take len new) = mset (take len syms)"
    "filter (\<lambda>y. c ! y = k) (take len new) = filter (\<lambda>y. c ! y = k) (take len syms)"
proof -
  let ?x = "syms ! i"
  let ?P1 = "take j syms" and ?P2 = "take (i - j) (drop j syms)"
  have il: "i < length syms" using assms by simp
  from insertion_shift_spec[OF il, where c = c and cond = "c ! ?x" and x = ?x] r have sp:
    "j \<le> i" "length syms1 = length syms"
    "new = ?P1 @ [?x] @ ?P2 @ drop (Suc i) syms"
    "\<forall>y \<in> set ?P2. c ! ?x < c ! y"
    "0 < j \<longrightarrow> \<not> c ! ?x < c ! (syms ! (j - 1))"
    by (simp_all add: new_def)
  have split: "take i syms = ?P1 @ ?P2"
    using sp(1) by (metis le_add_diff_inverse take_add)
  show "length new = length syms" by (simp add: new_def sp(2))
  have lp: "length (?P1 @ [?x] @ ?P2) = Suc i" using sp(1) il by simp
  show "drop (Suc i) new = drop (Suc i) syms"
    unfolding sp(3) using lp
    by (metis append.assoc append_eq_conv_conj)
  have tk: "take (Suc i) new = ?P1 @ [?x] @ ?P2"
    unfolding sp(3) using lp by (metis append.assoc append_eq_conv_conj)
  have srt: "sorted (map (\<lambda>s. c ! s) (?P1 @ ?P2))" using assms(3) split by simp
  have p1: "\<forall>y \<in> set ?P1. c ! y \<le> c ! ?x"
  proof (cases "0 < j")
    case False then show ?thesis by simp
  next
    case True
    then have last: "c ! (syms ! (j - 1)) \<le> c ! ?x" using sp(5) by simp
    have s1: "sorted (map (\<lambda>s. c ! s) ?P1)" using srt by (simp add: sorted_append)
    have jl: "j \<le> length syms" using sp(1) il by simp
    show ?thesis
    proof
      fix y assume "y \<in> set ?P1"
      then obtain n where n: "n < j" "y = syms ! n"
        using jl by (auto simp: in_set_conv_nth)
      have "map (\<lambda>s. c ! s) ?P1 ! n \<le> map (\<lambda>s. c ! s) ?P1 ! (j - 1)"
        using s1 n(1) jl True by (intro sorted_nth_mono) simp_all
      then have "c ! y \<le> c ! (syms ! (j - 1))" using n jl True by simp
      with last show "c ! y \<le> c ! ?x" by simp
    qed
  qed
  show "sorted (map (\<lambda>s. c ! s) (take (Suc i) new))"
    unfolding tk using srt p1 sp(4)
    by (auto simp: sorted_append less_imp_le)
  have tl: "take len syms = ?P1 @ ?P2 @ [?x] @ take (len - Suc i) (drop (Suc i) syms)"
  proof -
    have "take len syms = take (Suc i) syms @ take (len - Suc i) (drop (Suc i) syms)"
      using assms(1) by (metis Suc_leI le_add_diff_inverse take_add)
    also have "take (Suc i) syms = take i syms @ [?x]"
      using il by (simp add: take_Suc_conv_app_nth)
    finally show ?thesis using split by simp
  qed
  have tn: "take len new = ?P1 @ [?x] @ ?P2 @ take (len - Suc i) (drop (Suc i) syms)"
  proof -
    have "take len new = take (Suc i) new @ take (len - Suc i) (drop (Suc i) new)"
      using assms(1) by (metis Suc_leI le_add_diff_inverse take_add)
    then show ?thesis
      using tk \<open>drop (Suc i) new = drop (Suc i) syms\<close> by simp
  qed
  show "mset (take len new) = mset (take len syms)"
    unfolding tl tn by simp
  have f2: "c ! ?x = k \<Longrightarrow> filter (\<lambda>y. c ! y = k) ?P2 = []"
    using sp(4) by (auto simp: filter_empty_conv)
  show "filter (\<lambda>y. c ! y = k) (take len new) = filter (\<lambda>y. c ! y = k) (take len syms)"
    unfolding tl tn using f2 by simp
qed


lemma insertion_sort_loop_spec:
  "i \<le> len \<Longrightarrow> len \<le> length syms \<Longrightarrow> sorted (map (\<lambda>s. c ! s) (take i syms)) \<Longrightarrow>
   length (insertion_sort_loop syms c len i) = length syms \<and>
   drop len (insertion_sort_loop syms c len i) = drop len syms \<and>
   sorted (map (\<lambda>s. c ! s) (take len (insertion_sort_loop syms c len i))) \<and>
   mset (take len (insertion_sort_loop syms c len i)) = mset (take len syms) \<and>
   (\<forall>k. filter (\<lambda>y. c ! y = k) (take len (insertion_sort_loop syms c len i)) =
        filter (\<lambda>y. c ! y = k) (take len syms))"
proof (induction "len - i" arbitrary: i syms)
  case 0
  then have "i = len" by simp
  with 0 show ?case by (simp add: insertion_sort_loop.simps[of syms c len len])
next
  case (Suc d)
  then have il: "i < len" by simp
  obtain syms1 j where r: "insertion_shift syms c (c ! (syms ! i)) i = (syms1, j)"
    by (cases "insertion_shift syms c (c ! (syms ! i)) i")
  define new where "new = syms1[j := syms ! i]"
  note st = insertion_step[OF il Suc.prems(2,3) r, folded new_def]
  have u: "insertion_sort_loop syms c len i = insertion_sort_loop new c len (i + 1)"
    using il r by (subst insertion_sort_loop.simps) (simp add: Let_def new_def)
  have d: "d = len - (i + 1)" using Suc.hyps(2) by simp
  have ih: "length (insertion_sort_loop new c len (i + 1)) = length new \<and>
   drop len (insertion_sort_loop new c len (i + 1)) = drop len new \<and>
   sorted (map (\<lambda>s. c ! s) (take len (insertion_sort_loop new c len (i + 1)))) \<and>
   mset (take len (insertion_sort_loop new c len (i + 1))) = mset (take len new) \<and>
   (\<forall>k. filter (\<lambda>y. c ! y = k) (take len (insertion_sort_loop new c len (i + 1))) =
        filter (\<lambda>y. c ! y = k) (take len new))"
    using Suc.hyps(1)[OF d, of new] il Suc.prems(2) st(1,3) by simp
  have dl: "drop len new = drop len syms"
  proof -
    have "drop len new = drop (len - Suc i) (drop (Suc i) new)" using il by simp
    also have "\<dots> = drop (len - Suc i) (drop (Suc i) syms)" by (simp only: st(2))
    also have "\<dots> = drop len syms" using il by simp
    finally show ?thesis .
  qed
  show ?case
    unfolding u using ih st(1,4,5) dl by simp
qed

lemma insertion_sort_sort_key:
  assumes "len \<le> length syms"
  shows "insertion_sort syms c len = sort_key (\<lambda>s. c ! s) (take len syms) @ drop len syms"
proof (cases "len = 0")
  case True
  then show ?thesis
    by (simp add: insertion_sort_def insertion_sort_loop.simps[of syms c 0 "Suc 0"])
next
  case False
  define R where "R = insertion_sort_loop syms c len 1"
  have s1: "sorted (map (\<lambda>s. c ! s) (take 1 syms))" by (cases syms) simp_all
  from insertion_sort_loop_spec[of 1 len syms c, OF _ assms s1] False
  have sp: "length R = length syms" "drop len R = drop len syms"
    "sorted (map (\<lambda>s. c ! s) (take len R))" "mset (take len R) = mset (take len syms)"
    "\<And>k. filter (\<lambda>y. c ! y = k) (take len R) = filter (\<lambda>y. c ! y = k) (take len syms)"
    by (simp_all add: R_def)
  have "sort_key (\<lambda>s. c ! s) (take len syms) = take len R"
  proof (rule properties_for_sort_key)
    show "mset (take len R) = mset (take len syms)" by (rule sp(4))
    show "sorted (map (\<lambda>s. c ! s) (take len R))" by (rule sp(3))
    fix k
    show "filter (\<lambda>x. c ! k = c ! x) (take len R) = filter (\<lambda>x. c ! k = c ! x) (take len syms)"
      using sp(5)[of "c ! k"] by (simp add: eq_commute)
  qed
  then have "sort_key (\<lambda>s. c ! s) (take len syms) @ drop len syms = take len R @ drop len R"
    using sp(2) by simp
  then show ?thesis by (simp add: insertion_sort_def R_def)
qed

lemma fmerge_Nil2 [simp]: "fmerge key xs [] = xs"
  by (cases xs) simp_all

lemma mset_fmerge: "mset (fmerge key xs ys) = mset xs + mset ys"
  by (induction key xs ys rule: fmerge.induct) simp_all

lemma set_fmerge: "set (fmerge key xs ys) = set xs \<union> set ys"
  by (induction key xs ys rule: fmerge.induct) auto

lemma sorted_fmerge:
  "sorted (map key xs) \<Longrightarrow> sorted (map key ys) \<Longrightarrow> sorted (map key (fmerge key xs ys))"
  by (induction key xs ys rule: fmerge.induct) (auto simp: set_fmerge)

lemma filter_fmerge:
  "sorted (map key xs) \<Longrightarrow>
   filter (\<lambda>y. key y = k) (fmerge key xs ys) = filter (\<lambda>y. key y = k) xs @ filter (\<lambda>y. key y = k) ys"
proof (induction key xs ys rule: fmerge.induct)
  case (3 key x xs y ys)
  show ?case
  proof (cases "key y < key x")
    case True
    have e: "key y = k \<Longrightarrow> filter (\<lambda>y. key y = k) (x # xs) = []"
      using True 3(3) by (auto simp: filter_empty_conv)
    show ?thesis using True 3(1)[OF True 3(3)] e by auto
  next
    case False
    then show ?thesis using 3(2)[OF False] 3(3) by simp
  qed
qed simp_all

lemma fmerge_sort_key:
  "fmerge key (sort_key key xs) (sort_key key ys) = sort_key key (xs @ ys)"
proof (rule properties_for_sort_key[symmetric])
  show "mset (fmerge key (sort_key key xs) (sort_key key ys)) = mset (xs @ ys)"
    by (simp add: mset_fmerge)
  show "sorted (map key (fmerge key (sort_key key xs) (sort_key key ys)))"
    by (simp add: sorted_fmerge)
  fix k
  have "filter (\<lambda>x. key x = key k) (fmerge key (sort_key key xs) (sort_key key ys)) =
        filter (\<lambda>x. key x = key k) (xs @ ys)"
    by (simp add: filter_fmerge sort_key_stable)
  then show "filter (\<lambda>x. key k = key x) (fmerge key (sort_key key xs) (sort_key key ys)) =
        filter (\<lambda>x. key k = key x) (xs @ ys)"
    by (simp add: eq_commute)
qed


lemma slice_Cons: "a < b \<Longrightarrow> b \<le> length xs \<Longrightarrow>
  take (b - a) (drop a xs) = xs ! a # take (b - Suc a) (drop (Suc a) xs)"
  by (metis Cons_nth_drop_Suc Suc_diff_Suc  less_le_trans take_Suc_Cons)

lemma merge_loop_spec:
  "j \<le> m \<Longrightarrow> m \<le> k \<Longrightarrow> k \<le> len \<Longrightarrow> len \<le> length temp \<Longrightarrow>
   i + (m - j) + (len - k) \<le> length syms \<Longrightarrow>
   (case merge_loop syms temp c m len i j k of (syms', i', j', k') \<Rightarrow>
     length syms' = length syms \<and> j \<le> j' \<and> j' \<le> m \<and> k \<le> k' \<and> k' \<le> len \<and>
     (j' = m \<or> k' = len) \<and> i' = i + (j' - j) + (k' - k) \<and>
     take i syms' = take i syms \<and> drop i' syms' = drop i' syms \<and>
     take (i' - i) (drop i syms') @ take (m - j') (drop j' temp) @ take (len - k') (drop k' temp)
       = fmerge (\<lambda>s. c ! s) (take (m - j) (drop j temp)) (take (len - k) (drop k temp)))"
proof (induction syms temp c m len i j k rule: merge_loop.induct)
  case (1 syms temp c m len i j k)
  show ?case
  proof (cases "j < m \<and> k < len")
    case False
    then have u: "merge_loop syms temp c m len i j k = (syms, i, j, k)"
      by (subst merge_loop.simps) auto
    from False 1(3-) show ?thesis unfolding u by auto
  next
    case True
    then have jm: "j < m" and kl: "k < len" by simp_all
    have sj: "take (m - j) (drop j temp) = temp ! j # take (m - Suc j) (drop (Suc j) temp)"
      using slice_Cons[of j m temp] jm 1(3-) by simp
    have sk: "take (len - k) (drop k temp) = temp ! k # take (len - Suc k) (drop (Suc k) temp)"
      using slice_Cons[of k len temp] kl 1(3-) by simp
    have il: "i < length syms" using jm kl 1(3-) by simp
    show ?thesis
    proof (cases "c ! (temp ! k) < c ! (temp ! j)")
      case lt: True
      define syms2 where "syms2 = syms[i := temp ! k]"
      have u: "merge_loop syms temp c m len i j k = merge_loop syms2 temp c m len (i + 1) j (k + 1)"
        using True lt by (subst merge_loop.simps) (auto simp: syms2_def)
      obtain syms' i' j' k' where r: "merge_loop syms2 temp c m len (i + 1) j (k + 1) = (syms', i', j', k')"
        by (cases "merge_loop syms2 temp c m len (i + 1) j (k + 1)") 
      have pre: "i + 1 + (m - j) + (len - (k + 1)) \<le> length syms2"
        using 1(3-) kl by (simp add: syms2_def)
      have p2: "m \<le> k + 1" and p3: "k + 1 \<le> len" using 1(4) kl by simp_all
      note ih0 = 1(1)[OF True lt 1(3) p2 p3 1(6) pre[unfolded syms2_def], folded syms2_def,
          unfolded r prod.case]
      from ih0
      have ih: "length syms' = length syms2" "j \<le> j'" "j' \<le> m" "k + 1 \<le> k'" "k' \<le> len"
        "j' = m \<or> k' = len" "i' = i + 1 + (j' - j) + (k' - (k + 1))"
        "take (i + 1) syms' = take (i + 1) syms2" "drop i' syms' = drop i' syms2"
        "take (i' - (i + 1)) (drop (i + 1) syms') @ take (m - j') (drop j' temp) @ take (len - k') (drop k' temp)
          = fmerge (\<lambda>s. c ! s) (take (m - j) (drop j temp)) (take (len - (k + 1)) (drop (k + 1) temp))"
        by blast+
      have t2: "take (i + 1) syms2 = take i syms @ [temp ! k]"
        using il by (simp add: syms2_def take_Suc_conv_app_nth)
      have a: "take i syms' = take i syms"
        using ih(8) t2 by (metis append_eq_conv_conj length_take min.absorb2 il less_imp_le take_take le_add1 min.absorb1)
      have li': "i < length syms'" using il ih(1) by (simp add: syms2_def)
      have b: "syms' ! i = temp ! k"
        using ih(8) t2 li' by (metis add.commute less_add_one nth_append_length nth_take length_take min.absorb2 il less_imp_le plus_1_eq_Suc lessI)
      have c1: "take (i' - i) (drop i syms') = temp ! k # take (i' - (i + 1)) (drop (i + 1) syms')"
        using ih(7) li' b by (simp add: Cons_nth_drop_Suc[symmetric])
      have d: "drop i' syms' = drop i' syms"
        using ih(9) ih(7) by (simp add: syms2_def)
      show ?thesis
        unfolding u r using ih a c1 d lt sj sk by (simp add: syms2_def)
    next
      case ge: False
      define syms2 where "syms2 = syms[i := temp ! j]"
      have u: "merge_loop syms temp c m len i j k = merge_loop syms2 temp c m len (i + 1) (j + 1) k"
        using True ge by (subst merge_loop.simps) (auto simp: syms2_def)
      obtain syms' i' j' k' where r: "merge_loop syms2 temp c m len (i + 1) (j + 1) k = (syms', i', j', k')"
        by (cases "merge_loop syms2 temp c m len (i + 1) (j + 1) k") 
      have pre: "i + 1 + (m - (j + 1)) + (len - k) \<le> length syms2"
        using 1(3-) jm by (simp add: syms2_def)
      have p1: "j + 1 \<le> m" using jm by simp
      note ih0 = 1(2)[OF True ge p1 1(4) 1(5) 1(6) pre[unfolded syms2_def], folded syms2_def,
          unfolded r prod.case]
      from ih0
      have ih: "length syms' = length syms2" "j + 1 \<le> j'" "j' \<le> m" "k \<le> k'" "k' \<le> len"
        "j' = m \<or> k' = len" "i' = i + 1 + (j' - (j + 1)) + (k' - k)"
        "take (i + 1) syms' = take (i + 1) syms2" "drop i' syms' = drop i' syms2"
        "take (i' - (i + 1)) (drop (i + 1) syms') @ take (m - j') (drop j' temp) @ take (len - k') (drop k' temp)
          = fmerge (\<lambda>s. c ! s) (take (m - (j + 1)) (drop (j + 1) temp)) (take (len - k) (drop k temp))"
        by blast+
      have t2: "take (i + 1) syms2 = take i syms @ [temp ! j]"
        using il by (simp add: syms2_def take_Suc_conv_app_nth)
      have a: "take i syms' = take i syms"
        using ih(8) t2 by (metis append_eq_conv_conj length_take min.absorb2 il less_imp_le take_take le_add1 min.absorb1)
      have li': "i < length syms'" using il ih(1) by (simp add: syms2_def)
      have b: "syms' ! i = temp ! j"
        using ih(8) t2 li' by (metis add.commute less_add_one nth_append_length nth_take length_take min.absorb2 il less_imp_le plus_1_eq_Suc lessI)
      have c1: "take (i' - i) (drop i syms') = temp ! j # take (i' - (i + 1)) (drop (i + 1) syms')"
        using ih(7) li' b by (simp add: Cons_nth_drop_Suc[symmetric])
      have d: "drop i' syms' = drop i' syms"
        using ih(9) ih(7) by (simp add: syms2_def)
      show ?thesis
        unfolding u r using ih a c1 d ge sj sk by (simp add: syms2_def)
    qed
  qed
qed


lemma merge_sort_sort_key:
  "len \<le> length syms \<Longrightarrow>
   merge_sort syms c len = sort_key (\<lambda>s. c ! s) (take len syms) @ drop len syms"
proof (induction len arbitrary: syms rule: less_induct)
  case (less len)
  show ?case
  proof (cases "len < SORT_SWITCH_TO_INSERT_LIMIT")
    case True
    then show ?thesis
      using insertion_sort_sort_key[OF less.prems, of c]
      by (subst merge_sort.simps) simp
  next
    case False
    define m where "m = len div 2"
    have ml: "m < len" "len - m < len" "m \<le> length syms"
      using False less.prems by (simp_all add: m_def SORT_SWITCH_TO_INSERT_LIMIT_def)
    define A where "A = sort_key (\<lambda>s. c ! s) (take m syms)"
    define B where "B = sort_key (\<lambda>s. c ! s) (take (len - m) (drop m syms))"
    have lA: "length A = m" using ml by (simp add: A_def)
    have lB: "length B = len - m" using ml less.prems by (simp add: B_def)
    have s1: "merge_sort syms c m = A @ drop m syms"
      using less.IH[OF ml(1) ml(3)] by (simp add: A_def)
    have s2: "merge_sort (drop m syms) c (len - m) = B @ drop len syms"
      using less.IH[OF ml(2), of "drop m syms" ] less.prems ml by (simp add: B_def)
    define syms2 where "syms2 = A @ B @ drop len syms"
    define temp where "temp = A @ B"
    have l2: "length syms2 = length syms" using lA lB ml less.prems by (simp add: syms2_def)
    have lt: "length temp = len" using lA lB ml by (simp add: temp_def)
    obtain syms3 i j k where r: "merge_loop syms2 temp c m len 0 0 m = (syms3, i, j, k)"
      by (cases "merge_loop syms2 temp c m len 0 0 m")
    have pre: "0 + (m - 0) + (len - m) \<le> length syms2" using l2 ml less.prems by simp
    have mlen: "m \<le> len" using ml by simp
    have ltl: "len \<le> length temp" using lt by simp
    note sp0 = merge_loop_spec[OF le0 le_refl mlen ltl pre, of c, unfolded r prod.case,
        unfolded diff_zero drop_0 add_0]
    have sp: "length syms3 = length syms2" "j \<le> m" "m \<le> k" "k \<le> len" "j = m \<or> k = len"
      "i = j + (k - m)" "drop i syms3 = drop i syms2"
      "take i syms3 @ take (m - j) (drop j temp) @ take (len - k) (drop k temp)
         = fmerge (\<lambda>s. c ! s) (take m temp) (take (len - m) (drop m temp))"
      using sp0 by blast+
    have tA: "take m temp = A" and tB: "take (len - m) (drop m temp) = B"
      using lA lB by (simp_all add: temp_def)
    have fm: "fmerge (\<lambda>s. c ! s) A B = sort_key (\<lambda>s. c ! s) (take len syms)"
    proof -
      have "take len syms = take m syms @ take (len - m) (drop m syms)"
        using mlen by (metis le_add_diff_inverse take_add)
      then show ?thesis by (simp add: A_def B_def fmerge_sort_key)
    qed
    have d2: "drop len syms2 = drop len syms" using lA lB mlen by (simp add: syms2_def)
    have fin: "(if j < m then memcpy_syms syms3 i temp j (m - j)
                else if k < len then memcpy_syms syms3 i temp k (len - k) else syms3)
               = fmerge (\<lambda>s. c ! s) A B @ drop len syms"
    proof -
      consider "j < m" "k = len" | "j = m" "k < len" | "j = m" "k = len"
        using sp(2,4,5) by linarith
      then show ?thesis
      proof cases
        case 1
        have i1: "i + (m - j) = len" using 1 sp(6) sp(3) by simp
        have "drop len syms3 = drop len syms2"
          using sp(7) i1 by (metis add.commute drop_drop)
        then show ?thesis
          using 1 sp(8) i1 d2 by (simp add: memcpy_syms_def tA tB)
      next
        case 2
        have i2: "i + (len - k) = len" using 2 sp(6) sp(3) sp(4) by simp
        have "drop len syms3 = drop len syms2"
          using sp(7) i2 by (metis add.commute drop_drop)
        then show ?thesis
          using 2 sp(8) i2 d2 by (simp add: memcpy_syms_def tA tB)
      next
        case 3
        have i3: "i = len" using 3 sp(6) mlen by simp
        have e: "syms3 = take len syms3 @ drop len syms3" by simp
        have "take len syms3 = fmerge (\<lambda>s. c ! s) A B" "drop len syms3 = drop len syms"
          using 3 sp(8) sp(7) i3 d2 by (simp_all add: tA tB)
        then have "syms3 = fmerge (\<lambda>s. c ! s) A B @ drop len syms"
          using e by simp
        then show ?thesis using 3 by simp
      qed
    qed
    have tk: "take m (A @ drop m syms) = A" "drop m (A @ drop m syms) = drop m syms"
      using lA by simp_all
    have e1: "take m (merge_sort syms c m) @ merge_sort (drop m (merge_sort syms c m)) c (len - m)
                = syms2"
      unfolding s1 tk s2 syms2_def by simp
    have e2: "take len syms2 = temp"
      using lA lB mlen by (simp add: syms2_def temp_def)
    have "merge_sort syms c len = fmerge (\<lambda>s. c ! s) A B @ drop len syms"
      by (subst merge_sort.simps)
         (simp only: False if_False Let_def m_def[symmetric] e1 e2 r prod.case fin)
    then show ?thesis by (simp add: fm)
  qed
qed

subsection \<open>\<open>CreateCodesSlow\<close>\<close>

lemma found_syms_fold:
  "n \<le> N \<Longrightarrow>
   fold (\<lambda>i (syms, ls). if P i then (syms @ [i], ls[i := v]) else (syms, ls)) [0..<n]
        ([], replicate N z) =
   (filter P [0..<n], map (\<lambda>i. if i < n \<and> P i then v else z) [0..<N])"
proof (induction n)
  case 0
  show ?case by (simp add: map_replicate_trivial)
next
  case (Suc n)
  then have ih: "fold (\<lambda>i (syms, ls). if P i then (syms @ [i], ls[i := v]) else (syms, ls)) [0..<n]
        ([], replicate N z) =
   (filter P [0..<n], map (\<lambda>i. if i < n \<and> P i then v else z) [0..<N])" by simp
  have e1: "P n \<Longrightarrow> (map (\<lambda>i. if i < n \<and> P i then v else z) [0..<N])[n := v] =
        map (\<lambda>i. if i < Suc n \<and> P i then v else z) [0..<N]"
    using Suc.prems by (intro nth_equalityI) (auto simp: nth_list_update less_Suc_eq)
  have e2: "\<not> P n \<Longrightarrow> map (\<lambda>i. if i < n \<and> P i then v else z) [0..<N] =
        map (\<lambda>i. if i < Suc n \<and> P i then v else z) [0..<N]"
    by (auto simp: less_Suc_eq)
  show ?case
    using e1 e2 by (simp add: ih)
qed

lemma found_syms_eq:
  "found_syms sc =
     (filter (\<lambda>i. sc ! i \<noteq> 0) [0..<SYMBOLS],
      map (\<lambda>i. if sc ! i \<noteq> 0 then 15 else 0) [0..<SYMBOLS])"
proof -
  note a = found_syms_fold[OF le_refl, of "\<lambda>i. sc ! i \<noteq> 0" "word_of_nat HUFF_BITS_MAX :: 8 word"
      SYMBOLS 0]
  have b: "map (\<lambda>i. if i < SYMBOLS \<and> sc ! i \<noteq> 0 then word_of_nat HUFF_BITS_MAX else (0 :: 8 word))
             [0..<SYMBOLS] =
           map (\<lambda>i. if sc ! i \<noteq> 0 then 15 else 0) [0..<SYMBOLS]"
    by (simp add: HUFF_BITS_MAX_def)
  show ?thesis unfolding found_syms_def a b ..
qed

lemma filter_upt_single:
  assumes "s < N" "P s" "\<forall>i < N. i \<noteq> s \<longrightarrow> \<not> P i"
  shows "filter P [0..<N] = [s]"
proof -
  have "[0..<N] = [0..<s] @ [s] @ [Suc s..<N]"
  proof -
    have "[0..<N] = [0..<s] @ [s..<N]"
      using upt_add_eq_append[of 0 s "N - s"] assms(1) by simp
    then show ?thesis using assms(1) by (simp add: upt_conv_Cons)
  qed
  moreover have "filter P [0..<s] = []" using assms by (auto simp: filter_empty_conv)
  moreover have "filter P [Suc s..<N] = []" using assms by (auto simp: filter_empty_conv)
  ultimately show ?thesis using assms(2) by simp
qed

lemma CreateCodesSlow_single:
  assumes "s < SYMBOLS" "sc ! s \<noteq> 0" "\<forall>i < SYMBOLS. i \<noteq> s \<longrightarrow> sc ! i = 0"
  shows "CreateCodesSlow sc =
           \<lparr>codes = replicate SYMBOLS 0,
            lens = (map (\<lambda>i. if sc ! i \<noteq> 0 then 15 else 0) [0..<SYMBOLS])[s := 1]\<rparr>"
proof -
  have f: "filter (\<lambda>i. sc ! i \<noteq> 0) [0..<SYMBOLS] = [s]"
    using filter_upt_single[of s SYMBOLS "\<lambda>i. sc ! i \<noteq> 0"] assms by blast
  have m: "merge_sort [s] sc (Suc 0) = [s]"
    using merge_sort_sort_key[of 1 "[s]" sc] by simp
  show ?thesis
    by (simp add: CreateCodesSlow_def found_syms_eq f m Let_def)
qed


lemma tot_append: "tot (a @ b) s = tot a s + tot b s"
  by (simp add: tot_def)

lemma tot_take_Suc:
  "cp < length cols \<Longrightarrow> tot (take (Suc cp) cols) s = tot (take cp cols) s + unat (symbols (cols ! cp) ! s)"
  by (simp add: take_Suc_conv_app_nth tot_append) (simp add: tot_def)

lemma count_list_append: "count_list (a @ b) s = count_list a s + count_list b s"
  by (induction a) simp_all

lemma count_take_Suc:
  "p < length syms \<Longrightarrow>
   count_list (take (Suc p) syms) s = count_list (take p syms) s + (if syms ! p = s then 1 else 0)"
  by (simp add: take_Suc_conv_app_nth count_list_append)

lemma cov_Suc1:
  "cp < length cols \<Longrightarrow> cov cols syms (Suc cp) p s = cov cols syms cp p s + unat (symbols (cols ! cp) ! s)"
  by (simp add: cov_def tot_take_Suc)

lemma cov_Suc2:
  "p < length syms \<Longrightarrow> cov cols syms cp (Suc p) s = cov cols syms cp p s + (if syms ! p = s then 1 else 0)"
  by (simp add: cov_def count_take_Suc)

lemma tot_take_le: "tot (take cp cols) s \<le> tot cols s"
proof -
  have "tot cols s = tot (take cp cols) s + tot (drop cp cols) s"
    by (metis append_take_drop_id tot_append)
  then show ?thesis by simp
qed

lemma count_take_le: "count_list (take p syms) s \<le> count_list syms s"
proof -
  have "count_list syms s = count_list (take p syms) s + count_list (drop p syms) s"
    by (metis append_take_drop_id count_list_append)
  then show ?thesis by simp
qed

lemma cov_le_full: "cov cols syms cp p s \<le> tot cols s + count_list syms s"
  unfolding cov_def using tot_take_le[of cp cols s] count_take_le[of p syms s] by linarith

lemma pm_add_spec:
  assumes len: "len = length sbc"
    and pos: "cols_pos \<le> length cols" "pos \<le> len" "cols_pos < length cols \<or> pos < len"
    and wf: "length (symbols nc) = SYMBOLS" "\<forall>x \<in> set sbc. x < SYMBOLS"
    and small: "\<forall>s < SYMBOLS. tot cols s + count_list sbc s < 256"
    and acc: "\<forall>s < SYMBOLS. unat (symbols nc ! s) + k s = cov cols sbc cols_pos pos s"
  shows "case pm_add sc sbc len cols (nc, cols_pos, pos) of (nc', cp', p') \<Rightarrow>
           cols_pos \<le> cp' \<and> pos \<le> p' \<and> cp' \<le> length cols \<and> p' \<le> len \<and>
           cp' + p' = Suc (cols_pos + pos) \<and> length (symbols nc') = SYMBOLS \<and>
           (\<forall>s < SYMBOLS. unat (symbols nc' ! s) + k s = cov cols sbc cp' p' s)"
proof (cases "len \<le> pos \<or>
        (cols_pos < length cols \<and>
         count_c (cols ! cols_pos) < ucast (sc ! (sbc ! pos)))")
  case True
  then have cl: "cols_pos < length cols" using pos by auto
  have a: "unat (symbols nc ! s + symbols (cols ! cols_pos) ! s) + k s = cov cols sbc (Suc cols_pos) pos s"
    if s: "s < SYMBOLS" for s
  proof -
    have "unat (symbols nc ! s) + unat (symbols (cols ! cols_pos) ! s) + k s
            = cov cols sbc (Suc cols_pos) pos s"
      using acc s by (simp add: cov_Suc1[OF cl])
    moreover have "cov cols sbc (Suc cols_pos) pos s < 256"
      using cov_le_full[of cols sbc "Suc cols_pos" pos s] small s by auto
    ultimately have "unat (symbols nc ! s) + unat (symbols (cols ! cols_pos) ! s) < 2 ^ LENGTH(8)"
      by simp
    then have "unat (symbols nc ! s + symbols (cols ! cols_pos) ! s) =
               unat (symbols nc ! s) + unat (symbols (cols ! cols_pos) ! s)"
      by (simp only: unat_add_lem)
    then show ?thesis
      using acc s by (simp add: cov_Suc1[OF cl])
  qed
  have e: "pm_add sc sbc len cols (nc, cols_pos, pos) =
      (nc\<lparr>count_c := count_c nc + count_c (cols ! cols_pos),
          symbols := map (\<lambda>s. symbols nc ! s + symbols (cols ! cols_pos) ! s) [0..<SYMBOLS]\<rparr>,
       cols_pos + 1, pos)"
    by (simp only: pm_add_def prod.case True if_True)
  show ?thesis
    unfolding e using cl pos a by simp
next
  case False
  then have pl: "pos < length sbc" using len by auto
  define sym where "sym = sbc ! pos"
  have sy: "sym < SYMBOLS" using wf(2) pl by (simp add: sym_def)
  have a: "unat ((symbols nc)[sym := symbols nc ! sym + 1] ! s) + k s = cov cols sbc cols_pos (Suc pos) s"
    if s: "s < SYMBOLS" for s
  proof (cases "s = sym")
    case ne: False
    then show ?thesis using acc s wf(1) by (simp add: cov_Suc2[OF pl] sym_def)
  next
    case eq: True
    have "unat (symbols nc ! s) + 1 + k s = cov cols sbc cols_pos (Suc pos) s"
      using acc s eq by (simp add: cov_Suc2[OF pl] sym_def)
    moreover have "cov cols sbc cols_pos (Suc pos) s < 256"
      using cov_le_full[of cols sbc cols_pos "Suc pos" s] small s by auto
    ultimately have "unat (symbols nc ! s) + unat (1 :: 8 word) < 2 ^ LENGTH(8)"
      by simp
    then have "unat (symbols nc ! s + 1) = unat (symbols nc ! s) + 1"
      by (simp only: unat_add_lem) simp
    then show ?thesis
      using acc s eq wf(1) sy by (simp add: cov_Suc2[OF pl] sym_def)
  qed
  have e: "pm_add sc sbc len cols (nc, cols_pos, pos) =
      (nc\<lparr>count_c := count_c nc + ucast (sc ! (sbc ! pos)),
          symbols := (symbols nc)[sbc ! pos := symbols nc ! (sbc ! pos) + 1]\<rparr>,
       cols_pos, pos + 1)"
    by (simp only: pm_add_def prod.case False if_False)
  show ?thesis
    unfolding e using pl pos len wf(1) a by (simp add: sym_def)
qed

lemma pm_package_spec:
  "len = length sbc \<Longrightarrow> cols_pos \<le> length cols \<Longrightarrow> pos \<le> len \<Longrightarrow>
   \<forall>x \<in> set sbc. x < SYMBOLS \<Longrightarrow>
   \<forall>s < SYMBOLS. tot cols s + count_list sbc s < 256 \<Longrightarrow>
   \<forall>c \<in> set next_cols. length (symbols c) = SYMBOLS \<Longrightarrow>
   \<forall>s < SYMBOLS. tot next_cols s = cov cols sbc cols_pos pos s \<Longrightarrow>
   (case pm_package sc sbc len cols cols_pos pos next_cols of (cpF, pF, ncF) \<Rightarrow>
      cpF \<le> length cols \<and> pF \<le> len \<and> (length cols - cpF) + (len - pF) \<le> 1 \<and>
      cols_pos \<le> cpF \<and> pos \<le> pF \<and>
      (\<forall>c \<in> set ncF. length (symbols c) = SYMBOLS) \<and>
      (\<forall>s < SYMBOLS. tot ncF s = cov cols sbc cpF pF s) \<and>
      2 * length ncF + cols_pos + pos = 2 * length next_cols + cpF + pF)"
proof (induction sc sbc len cols cols_pos pos next_cols rule: pm_package.induct)
  case (1 sc sbc len cols cols_pos pos next_cols)
  show ?case
  proof (cases "1 < (length cols - cols_pos) + (len - pos)")
    case False
    have u: "pm_package sc sbc len cols cols_pos pos next_cols = (cols_pos, pos, next_cols)"
      using False by (subst pm_package.simps) auto
    show ?thesis unfolding u using False 1(2-) by simp
  next
    case True
    define z where "z = \<lparr>symbols = replicate SYMBOLS (0 :: 8 word), count_c = 0\<rparr>"
    define k where "k = cov cols sbc cols_pos pos"
    obtain nc1 cp1 p1 where a1: "pm_add sc sbc len cols (z, cols_pos, pos) = (nc1, cp1, p1)"
      by (cases "pm_add sc sbc len cols (z, cols_pos, pos)")
    obtain nc2 cp2 p2 where a2: "pm_add sc sbc len cols (nc1, cp1, p1) = (nc2, cp2, p2)"
      by (cases "pm_add sc sbc len cols (nc1, cp1, p1)")
    have rem0: "cols_pos < length cols \<or> pos < len" using True by linarith
    have z1: "length (symbols z) = SYMBOLS" by (simp add: z_def)
    have z2: "\<forall>s < SYMBOLS. unat (symbols z ! s) + k s = cov cols sbc cols_pos pos s"
      by (simp add: z_def k_def)
    note s1 = pm_add_spec[OF 1(2) 1(3) 1(4) rem0 z1 1(5) 1(6) z2, of sc, unfolded a1 prod.case]
    have rem1: "cp1 < length cols \<or> p1 < len" using True s1 1(3,4) by linarith
    note s2 = pm_add_spec[OF 1(2) s1[THEN conjunct2, THEN conjunct2, THEN conjunct1]
        s1[THEN conjunct2, THEN conjunct2, THEN conjunct2, THEN conjunct1] rem1
        s1[THEN conjunct2, THEN conjunct2, THEN conjunct2, THEN conjunct2, THEN conjunct2, THEN conjunct1]
        1(5) 1(6)
        s1[THEN conjunct2, THEN conjunct2, THEN conjunct2, THEN conjunct2, THEN conjunct2, THEN conjunct2],
        of sc, unfolded a2 prod.case]
    have u: "pm_package sc sbc len cols cols_pos pos next_cols =
             pm_package sc sbc len cols cp2 p2 (next_cols @ [nc2])"
      using True by (subst pm_package.simps) (simp add: z_def[symmetric] a1 a2)
    have n1: "\<forall>c \<in> set (next_cols @ [nc2]). length (symbols c) = SYMBOLS"
      using 1(7) s2 by simp
    have n2: "\<forall>s < SYMBOLS. tot (next_cols @ [nc2]) s = cov cols sbc cp2 p2 s"
    proof (intro allI impI)
      fix s assume s: "s < SYMBOLS"
      have "tot (next_cols @ [nc2]) s = tot next_cols s + unat (symbols nc2 ! s)"
        by (simp add: tot_append) (simp add: tot_def)
      also have "\<dots> = k s + unat (symbols nc2 ! s)" using 1(8) s by (simp add: k_def)
      also have "\<dots> = cov cols sbc cp2 p2 s" using s2 s by (simp add: add.commute)
      finally show "tot (next_cols @ [nc2]) s = cov cols sbc cp2 p2 s" .
    qed
    have c2: "cp2 \<le> length cols" "p2 \<le> len" using s2 by simp_all
    have a12: "(nc2, cp2, p2) = pm_add sc sbc len cols
       (pm_add sc sbc len cols (\<lparr>symbols = replicate SYMBOLS 0, count_c = 0\<rparr>, cols_pos, pos))"
      using a1 a2 by (simp add: z_def)
    note ih = 1(1)[OF True refl a12 refl 1(2) c2 1(5) 1(6) n1 n2]
    obtain cpF pF ncF where r: "pm_package sc sbc len cols cp2 p2 (next_cols @ [nc2]) = (cpF, pF, ncF)"
      by (cases "pm_package sc sbc len cols cp2 p2 (next_cols @ [nc2])")
    have st: "cols_pos \<le> cp2" "pos \<le> p2" "cp2 + p2 = Suc (Suc (cols_pos + pos))"
      using s1 s2 by linarith+
    show ?thesis
    proof -
      note i = ih[unfolded r prod.case]
      have "cols_pos \<le> cpF" "pos \<le> pF" using i st by linarith+
      moreover have "2 * length ncF + cols_pos + pos = 2 * length next_cols + cpF + pF"
        using i st by simp
      ultimately show ?thesis
        unfolding u r prod.case using i by blast
    qed
  qed
qed


lemma count_list_distinct_le: "distinct xs \<Longrightarrow> count_list xs x \<le> 1"
  by (induction xs) auto

lemma count_list_mem_ge: "x \<in> set xs \<Longrightarrow> 1 \<le> count_list xs x"
  by (induction xs) auto

lemma pm_round_inv:
  assumes len: "len = length sbc" "2 \<le> len"
    and sbc: "distinct sbc" "\<forall>x \<in> set sbc. x < SYMBOLS"
    and j: "j < 15"
    and inv: "pm_inv sbc j (ls, cols)"
  shows "pm_inv sbc (Suc j) (pm_round sc sbc len (ls, cols)) \<and>
         1 \<le> tot (snd (pm_round sc sbc len (ls, cols))) (sbc ! 0) \<and>
         length (snd (pm_round sc sbc len (ls, cols))) = (length cols + len) div 2"
proof -
  from inv have wl: "length ls = SYMBOLS" and wc: "\<forall>c \<in> set cols. length (symbols c) = SYMBOLS"
    and acc: "\<And>s. s < SYMBOLS \<Longrightarrow> tot cols s \<le> j * count_list sbc s"
             "\<And>s. s < SYMBOLS \<Longrightarrow>
                  unat (ls ! s) + j * count_list sbc s = 15 * count_list sbc s + tot cols s"
    by (simp_all add: pm_inv_def)
  have c1: "count_list sbc s \<le> 1" for s using count_list_distinct_le[OF sbc(1)] .
  have small: "\<forall>s < SYMBOLS. tot cols s + count_list sbc s < 256"
  proof (intro allI impI)
    fix s assume s: "s < SYMBOLS"
    have "j * count_list sbc s \<le> j" using c1[of s] by (metis mult.right_neutral mult_le_mono2)
    then show "tot cols s + count_list sbc s < 256" using acc(1)[OF s] c1[of s] j by linarith
  qed
  have ge: "tot cols s \<le> unat (ls ! s)" if "s < SYMBOLS" for s
  proof -
    have "j * count_list sbc s \<le> 15 * count_list sbc s" using j by simp
    then show ?thesis using acc(2)[OF that] by linarith
  qed
  obtain cpF pF ncF where r: "pm_package sc sbc len cols 0 0 [] = (cpF, pF, ncF)"
    by (cases "pm_package sc sbc len cols 0 0 []")
  have e0: "\<forall>c \<in> set ([] :: collection list). length (symbols c) = SYMBOLS" by simp
  have e1: "\<forall>s < SYMBOLS. tot [] s = cov cols sbc 0 0 s" by (simp add: tot_def cov_def)
  note sp0 = pm_package_spec[OF len(1) le0 le0 sbc(2) small e0 e1, of sc, unfolded r prod.case]
  have sp: "cpF \<le> length cols" "pF \<le> len" "(length cols - cpF) + (len - pF) \<le> 1"
    "\<forall>c \<in> set ncF. length (symbols c) = SYMBOLS"
    "\<And>s. s < SYMBOLS \<Longrightarrow> tot ncF s = cov cols sbc cpF pF s"
    "2 * length ncF = cpF + pF"
    using sp0 by (blast, blast, blast, blast, blast, simp)
  define ls1 where "ls1 = (if cpF < length cols
                then map (\<lambda>i. ls ! i - symbols (cols ! cpF) ! i) [0..<SYMBOLS]
                else if pF < len
                then ls[sbc ! pF := ls ! (sbc ! pF) - 1]
                else ls)"
  have res: "pm_round sc sbc len (ls, cols) = (ls1, ncF)"
    by (simp add: pm_round_def r ls1_def Let_def)
  have p1: "1 \<le> pF" using sp(3) len(2) by linarith
  have first: "1 \<le> tot ncF (sbc ! 0)"
  proof -
    have "0 < length sbc" using len by linarith
    then have "sbc ! 0 \<in> set sbc" by (rule nth_mem)
    then have s0: "sbc ! 0 < SYMBOLS" using sbc(2) by blast
    have "sbc ! 0 \<in> set (take pF sbc)"
      using p1 len by (metis One_nat_def Suc_le_lessD in_set_conv_nth length_take less_le_trans min.absorb2 nth_take sp(2) zero_less_one)
    then have "1 \<le> count_list (take pF sbc) (sbc ! 0)" by (rule count_list_mem_ge)
    then show ?thesis using sp(5)[OF s0] by (simp add: cov_def)
  qed
  have nlen: "length ncF = (length cols + len) div 2"
    using sp(1,2,3,6) by linarith
  have l1: "length ls1 = SYMBOLS" using wl by (simp add: ls1_def)
  have main: "tot ncF s \<le> Suc j * count_list sbc s \<and>
              unat (ls1 ! s) + Suc j * count_list sbc s = 15 * count_list sbc s + tot ncF s"
    if s: "s < SYMBOLS" for s
  proof -
    consider (a) "cpF < length cols" | (b) "cpF = length cols" "pF < len" | (c) "cpF = length cols" "pF = len"
      using sp(1,2) by linarith
    then show ?thesis
    proof cases
      case a
      then have cp: "Suc cpF = length cols" and pf: "pF = len" using sp(2,3) by linarith+
      define x where "x = symbols (cols ! cpF) ! s"
      have t: "tot cols s = tot (take cpF cols) s + unat x"
        using tot_take_Suc[OF a, of s] cp by (simp add: x_def)
      have n: "tot ncF s + unat x = tot cols s + count_list sbc s"
        using sp(5)[OF s] t pf len(1) by (simp add: cov_def)
      have xl: "unat x \<le> unat (ls ! s)" using t ge[OF s] by linarith
      then have "x \<le> ls ! s" by (simp add: word_le_nat_alt)
      then have u: "unat (ls ! s - x) = unat (ls ! s) - unat x" by (rule unat_sub)
      have v: "ls1 ! s = ls ! s - x" using a s by (simp add: ls1_def x_def)
      show ?thesis
        unfolding v u using n acc(1)[OF s] acc(2)[OF s] xl t by simp
      next
      case b
      then have pf: "Suc pF = len" using sp(3) by linarith
      have pl: "pF < length sbc" using b len by simp
      define sym where "sym = sbc ! pF"
      have sy: "sym < SYMBOLS" using sbc(2) pl by (simp add: sym_def)
      have cnt: "count_list sbc s = count_list (take pF sbc) s + (if sym = s then 1 else 0)"
        using count_take_Suc[OF pl, of s] pf len by (simp add: sym_def)
      have n: "tot ncF s = tot cols s + count_list (take pF sbc) s"
        using sp(5)[OF s] b by (simp add: cov_def)
      have v: "ls1 = ls[sym := ls ! sym - 1]" using b by (simp add: ls1_def sym_def)
      show ?thesis
      proof (cases "sym = s")
        case False
        then show ?thesis
          unfolding v using n cnt acc(1)[OF s] acc(2)[OF s] by simp
      next
        case True
        have one: "count_list sbc s = 1" using cnt True c1[of s] by simp
        then have z: "count_list (take pF sbc) s = 0" using cnt True by simp
        have pos: "1 \<le> unat (ls ! s)" using acc(2)[OF s] one j by simp
        then have "(1 :: 8 word) \<le> ls ! s" by (simp add: word_le_nat_alt)
        then have u: "unat (ls ! s - 1) = unat (ls ! s) - 1" using unat_sub[of 1 "ls ! s"] by simp
        have w: "ls1 ! s = ls ! s - 1" using True wl s by (simp add: v)
        show ?thesis
          unfolding w u using n z one acc(1)[OF s] acc(2)[OF s] pos by simp
      qed
    next
      case c
      have n: "tot ncF s = tot cols s + count_list sbc s"
        using sp(5)[OF s] c len by (simp add: cov_def)
      have v: "ls1 = ls" using c by (simp add: ls1_def)
      show ?thesis
        unfolding v using n acc(1)[OF s] acc(2)[OF s] by simp
    qed
  qed
  have "pm_inv sbc (Suc j) (ls1, ncF)"
    unfolding pm_inv_def prod.case using l1 sp(4) main by blast
  then show ?thesis using first nlen by (simp add: res)
qed


lemma pm_rounds_inv:
  assumes len: "len = length sbc" "2 \<le> len"
    and sbc: "distinct sbc" "\<forall>x \<in> set sbc. x < SYMBOLS"
    and init: "pm_inv sbc 0 (ls0, [])"
  shows "j \<le> 15 \<Longrightarrow>
         pm_inv sbc j ((pm_round sc sbc len ^^ j) (ls0, [])) \<and>
         (0 < j \<longrightarrow> 1 \<le> tot (snd ((pm_round sc sbc len ^^ j) (ls0, []))) (sbc ! 0))"
proof (induction j)
  case 0
  show ?case using init by simp
next
  case (Suc j)
  obtain ls cols where st: "(pm_round sc sbc len ^^ j) (ls0, []) = (ls, cols)"
    by (cases "(pm_round sc sbc len ^^ j) (ls0, [])")
  have i: "pm_inv sbc j (ls, cols)" using Suc st by simp
  have jl: "j < 15" using Suc.prems by simp
  from pm_round_inv[OF len sbc jl i, of sc]
  show ?case by (simp add: st)
qed

lemma found_syms_props:
  "distinct (filter (\<lambda>i. sc ! i \<noteq> 0) [0..<SYMBOLS])"
  "set (filter (\<lambda>i. sc ! i \<noteq> 0) [0..<SYMBOLS]) = {i. i < SYMBOLS \<and> sc ! i \<noteq> 0}"
  by auto

lemma pm_inv_init:
  assumes "distinct sbc" "set sbc = {i. i < SYMBOLS \<and> sc ! i \<noteq> 0}"
  shows "pm_inv sbc 0 (map (\<lambda>i. if sc ! i \<noteq> 0 then 15 else 0) [0..<SYMBOLS], [])"
proof -
  have "unat ((if sc ! s \<noteq> 0 then 15 else 0) :: 8 word) = 15 * count_list sbc s" if "s < SYMBOLS" for s
  proof (cases "sc ! s \<noteq> 0")
    case True
    then have "s \<in> set sbc" using that assms(2) by simp
    then have "count_list sbc s = 1"
      using count_list_mem_ge[of s sbc] count_list_distinct_le[OF assms(1), of s] by linarith
    with True show ?thesis by simp
  next
    case False
    then have "s \<notin> set sbc" using assms(2) by simp
    then have "count_list sbc s = 0" by (simp add: count_list_0_iff)
    with False show ?thesis by simp
  qed
  then show ?thesis by (simp add: pm_inv_def tot_def)
qed

lemma CreateCodesSlow_lens_not_all_zero:
  assumes "\<exists>i < SYMBOLS. sc ! i \<noteq> 0"
  shows "\<exists>i < SYMBOLS. lens (CreateCodesSlow sc) ! i \<noteq> 0"
proof -
  define syms where "syms = filter (\<lambda>i. sc ! i \<noteq> 0) [0..<SYMBOLS]"
  define ls0 :: "8 word list" where "ls0 = map (\<lambda>i. if sc ! i \<noteq> 0 then 15 else 0) [0..<SYMBOLS]"
  define len where "len = length syms"
  define sbc where "sbc = merge_sort syms sc len"
  have sk: "sbc = sort_key (\<lambda>s. sc ! s) syms"
    using merge_sort_sort_key[of len syms sc] by (simp add: sbc_def len_def)
  have d: "distinct sbc" and st: "set sbc = {i. i < SYMBOLS \<and> sc ! i \<noteq> 0}"
    and ll: "length sbc = len"
    using found_syms_props[of sc] by (simp_all add: sk syms_def len_def)
  have ne: "0 < len"
  proof -
    from assms obtain i where "i < SYMBOLS" "sc ! i \<noteq> 0" by blast
    then have "i \<in> set sbc" using st by simp
    then show ?thesis using ll by (cases sbc) auto
  qed
  have s0: "sbc ! 0 < SYMBOLS"
  proof -
    have "sbc ! 0 \<in> set sbc" using ne ll by (simp add: nth_mem)
    then show ?thesis using st by simp
  qed
  have l0: "length ls0 = SYMBOLS" by (simp add: ls0_def)
  show ?thesis
  proof (cases "len = 1")
    case True
    have "CreateCodesSlow sc = \<lparr>codes = replicate SYMBOLS 0, lens = ls0[sbc ! 0 := 1]\<rparr>"
      unfolding CreateCodesSlow_def found_syms_eq Let_def prod.case
      unfolding syms_def[symmetric] ls0_def[symmetric] len_def[symmetric] sbc_def[symmetric]
      using True by (simp only: refl if_True)
    then have "lens (CreateCodesSlow sc) ! (sbc ! 0) = 1" using s0 l0 by simp
    then show ?thesis using s0 by (intro exI[of _ "sbc ! 0"]) simp
  next
    case False
    then have l2: "2 \<le> len" using ne by linarith
    obtain ls cols where r: "(pm_round sc sbc len ^^ 15) (ls0, []) = (ls, cols)"
      by (cases "(pm_round sc sbc len ^^ 15) (ls0, [])")
    have bnd: "\<forall>x \<in> set sbc. x < SYMBOLS" using st by simp
    note i0 = pm_inv_init[OF d st, folded ls0_def]
    from pm_rounds_inv[OF ll[symmetric] l2 d bnd i0, of 15 sc] r
    have inv: "pm_inv sbc 15 (ls, cols)" and t: "1 \<le> tot cols (sbc ! 0)" by simp_all
    from inv s0 have "unat (ls ! (sbc ! 0)) + 15 * count_list sbc (sbc ! 0) =
                      15 * count_list sbc (sbc ! 0) + tot cols (sbc ! 0)"
      by (simp add: pm_inv_def)
    then have "unat (ls ! (sbc ! 0)) \<noteq> 0" using t by linarith
    then have nz: "ls ! (sbc ! 0) \<noteq> 0" by auto
    have "lens (CreateCodesSlow sc) = ls"
      unfolding CreateCodesSlow_def found_syms_eq Let_def prod.case
      unfolding syms_def[symmetric] ls0_def[symmetric] len_def[symmetric] sbc_def[symmetric]
        HUFF_BITS_MAX_def r
      using False by simp
    then show ?thesis using nz s0 by (intro exI[of _ "sbc ! 0"]) simp
  qed
qed


text \<open>
  Claim C10: for a histogram of \<open>SYMBOLS\<close> counts in which exactly one symbol \<open>s\<close> has a
  nonzero count, \<open>CreateCodesSlow\<close> gives \<open>s\<close> the length 1 and the code 0 and every other
  symbol the length 0; and for every histogram with at least one nonzero count the length
  array it returns is not all zero.
\<close>

theorem CreateCodesSlow_single_symbol:
  assumes "length sc = SYMBOLS"
  shows "(s < SYMBOLS \<and> sc ! s \<noteq> 0 \<and> (\<forall>i < SYMBOLS. i \<noteq> s \<longrightarrow> sc ! i = 0) \<longrightarrow>
            length (lens (CreateCodesSlow sc)) = SYMBOLS \<and>
            length (codes (CreateCodesSlow sc)) = SYMBOLS \<and>
            lens (CreateCodesSlow sc) ! s = 1 \<and> codes (CreateCodesSlow sc) ! s = 0 \<and>
            (\<forall>i < SYMBOLS. i \<noteq> s \<longrightarrow> lens (CreateCodesSlow sc) ! i = 0)) \<and>
         ((\<exists>i < SYMBOLS. sc ! i \<noteq> 0) \<longrightarrow> (\<exists>i < SYMBOLS. lens (CreateCodesSlow sc) ! i \<noteq> 0))"
proof (intro conjI impI)
  assume a: "s < SYMBOLS \<and> sc ! s \<noteq> 0 \<and> (\<forall>i < SYMBOLS. i \<noteq> s \<longrightarrow> sc ! i = 0)"
  then have e: "CreateCodesSlow sc =
           \<lparr>codes = replicate SYMBOLS 0,
            lens = (map (\<lambda>i. if sc ! i \<noteq> 0 then 15 else 0) [0..<SYMBOLS])[s := 1]\<rparr>"
    using CreateCodesSlow_single[of s sc] by blast
  show "length (lens (CreateCodesSlow sc)) = SYMBOLS" by (simp add: e)
  show "length (codes (CreateCodesSlow sc)) = SYMBOLS" by (simp add: e)
  show "lens (CreateCodesSlow sc) ! s = 1" using a by (simp add: e)
  show "codes (CreateCodesSlow sc) ! s = 0" using a by (simp add: e)
  show "\<forall>i < SYMBOLS. i \<noteq> s \<longrightarrow> lens (CreateCodesSlow sc) ! i = 0"
    using a by (simp add: e)
next
  assume "\<exists>i < SYMBOLS. sc ! i \<noteq> 0"
  then show "\<exists>i < SYMBOLS. lens (CreateCodesSlow sc) ! i \<noteq> 0"
    by (rule CreateCodesSlow_lens_not_all_zero)
qed

theorem CreateCodesSlow_single_symbol_witness:
  "lens (CreateCodesSlow ((replicate SYMBOLS 0)[65 := 3])) ! 65 = 1 \<and>
   codes (CreateCodesSlow ((replicate SYMBOLS 0)[65 := 3])) ! 65 = 0 \<and>
   lens (CreateCodesSlow ((replicate SYMBOLS 0)[65 := 3])) ! 66 = 0 \<and>
   (\<exists>i < SYMBOLS. lens (CreateCodesSlow ((replicate SYMBOLS 0)[65 := 3])) ! i \<noteq> 0)"
proof -
  have l: "length ((replicate SYMBOLS (0 :: 32 word))[65 := 3]) = SYMBOLS" by simp
  have h: "65 < SYMBOLS \<and> (replicate SYMBOLS (0 :: 32 word))[65 := 3] ! 65 \<noteq> 0 \<and>
           (\<forall>i < SYMBOLS. i \<noteq> 65 \<longrightarrow> (replicate SYMBOLS (0 :: 32 word))[65 := 3] ! i = 0)"
    by (simp add: SYMBOLS_def)
  have g: "\<exists>i < SYMBOLS. (replicate SYMBOLS (0 :: 32 word))[65 := 3] ! i \<noteq> 0"
    using h by blast
  have s: "66 < SYMBOLS" by (simp add: SYMBOLS_def)
  note t = CreateCodesSlow_single_symbol[OF l, of 65]
  from t h g s show ?thesis by simp
qed


subsection \<open>Empty input\<close>

lemma compress_chunks_rest:
  "compress_chunks inp inn in_len in_end cs = Some (Inr (inn', in_len', cs')) \<Longrightarrow> 0 < in_len \<Longrightarrow>
   0 < in_len' \<and> in_len' \<le> CHUNK_SIZE"
proof (induction inp inn in_len in_end cs rule: compress_chunks.induct)
  case (1 inp inn in_len in_end cs)
  show ?case
  proof (cases "CHUNK_SIZE < in_len")
    case False
    with 1(2,3) show ?thesis by (subst (asm) compress_chunks.simps) simp
  next
    case True
    from 1(2) True obtain cs1 where
      c: "compress_chunk inp inn CHUNK_SIZE in_end (word_of_nat CHUNK_SIZE + 2) 0 cs = Some (Inr cs1)"
      and r: "compress_chunks inp (inn + int CHUNK_SIZE) (in_len - CHUNK_SIZE) in_end cs1 =
              Some (Inr (inn', in_len', cs'))"
      by (subst (asm) compress_chunks.simps) (auto split: option.splits sum.splits)
    from 1(1)[OF True c refl r] True show ?thesis by simp
  qed
qed

text \<open>
  Claim C3, as stated, fails: for an empty input the function returns at once with
  \<open>*_out_len = 0\<close> and return code 0, and stores nothing, whatever the size of the output
  buffer; it does not write 260 bytes.
\<close>

theorem xpress_huff_compress_empty_not_260:
  "xpress_huff_compress True cleared zeroed (replicate SYMBOLS 0) [] zeroed 1000 =
     Some (Inr (0, zeroed)) \<and> (0 :: 64 word) \<noteq> 260"
  by (simp add: xpress_huff_compress_def)

text \<open>
  Claim C3, amended: when the input length is 0, \<open>xpress_huff_compress\<close> writes no output
  byte and reports \<open>written_length = 0\<close> with return code 0.  (The branch that writes the
  260-byte minimal stream follows the chunk loop, which leaves between 1 and
  \<open>CHUNK_SIZE\<close> bytes for the last chunk whenever the input is not empty.)
\<close>

theorem xpress_huff_compress_empty:
  "xpress_huff_compress malloc_ok w0 buf0 ls0 [] om out_len = Some (Inr (0, om))"
  by (simp add: xpress_huff_compress_def)

end
